theory Spec2Isabelle
  imports Main "HOL-Library.Sublist"
begin

section \<open>Text: Python strings as sequences of code points\<close>

text \<open>
  A Python \<open>str\<close> is a sequence of Unicode code points, modelled as a list of naturals.
  \<open>lit\<close> turns an ASCII literal into such a sequence.
\<close>

type_synonym str = "nat list"

definition lit :: "string \<Rightarrow> str" where
  "lit cs = map of_char cs"

text \<open>
  \<open>str.isspace\<close> for one code point; the regular expression class \<open>\s\<close> of a \<open>str\<close>
  pattern is the same set.
\<close>

definition isspace :: "nat \<Rightarrow> bool" where
  "isspace c =
     ((9 \<le> c \<and> c \<le> 13) \<or> (28 \<le> c \<and> c \<le> 32) \<or> c = 133 \<or> c = 160 \<or> c = 5760 \<or>
      (8192 \<le> c \<and> c \<le> 8202) \<or> c = 8232 \<or> c = 8233 \<or> c = 8239 \<or> c = 8287 \<or> c = 12288)"

text \<open>The line boundaries of \<open>str.splitlines\<close>.\<close>

definition is_linebreak :: "nat \<Rightarrow> bool" where
  "is_linebreak c =
     ((10 \<le> c \<and> c \<le> 13) \<or> (28 \<le> c \<and> c \<le> 30) \<or> c = 133 \<or> c = 8232 \<or> c = 8233)"

definition lstrip :: "str \<Rightarrow> str" where
  "lstrip s = dropWhile isspace s"

definition rstrip :: "str \<Rightarrow> str" where
  "rstrip s = rev (dropWhile isspace (rev s))"

definition strip :: "str \<Rightarrow> str" where
  "strip s = rstrip (lstrip s)"

text \<open>
  \<open>str.splitlines()\<close>: a line runs up to the next line boundary, \<open>\r\n\<close> counts as one
  boundary, and nothing is produced for the empty rest after the last boundary.
\<close>

fun skip_break :: "str \<Rightarrow> str" where
  "skip_break [] = []"
| "skip_break (c # r) = (if c = 13 \<and> take 1 r = [10] then drop 1 r else r)"

function splitlines :: "str \<Rightarrow> str list" where
  "splitlines [] = []"
| "splitlines (c # s) =
     takeWhile (\<lambda>c. \<not> is_linebreak c) (c # s) #
     splitlines (skip_break (dropWhile (\<lambda>c. \<not> is_linebreak c) (c # s)))"
  by pat_completeness auto

lemma length_skip_break: "length (skip_break r) \<le> length r"
  by (cases r) auto

lemma length_skip_break_dropWhile:
  assumes "s \<noteq> []"
  shows "length (skip_break (dropWhile P s)) < length s"
proof (cases "dropWhile P s")
  case Nil
  show ?thesis unfolding Nil using assms by simp
next
  case (Cons c r)
  have "length (dropWhile P s) \<le> length s" by (rule length_dropWhile_le)
  with Cons have "Suc (length r) \<le> length s" by simp
  moreover have "length (skip_break (c # r)) \<le> length r" by simp
  ultimately show ?thesis using Cons by simp
qed

termination splitlines
proof (relation "measure length")
  show "wf (measure length)" by simp
next
  fix c :: nat and s :: str
  have "length (skip_break (dropWhile (\<lambda>c. \<not> is_linebreak c) (c # s))) < length (c # s)"
    by (rule length_skip_break_dropWhile) simp
  then show "(skip_break (dropWhile (\<lambda>c. \<not> is_linebreak c) (c # s)), c # s) \<in> measure length"
    by (simp only: in_measure)
qed

text \<open>\<open>sep.join(parts)\<close>.\<close>

fun join :: "str \<Rightarrow> str list \<Rightarrow> str" where
  "join sep [] = []"
| "join sep [x] = x"
| "join sep (x # y # r) = x @ sep @ join sep (y # r)"

section \<open>Regular expressions\<close>

text \<open>
  The fragment of Python's \<open>re\<close> syntax that the four patterns of the program use.
  \<open>Cls P\<close> is one character of a class, \<open>Rep n P\<close> the greedy repetition \<open>{n,}\<close> of a
  class (\<open>*\<close> is \<open>Rep 0\<close>, \<open>+\<close> is \<open>Rep 1\<close>), \<open>Opt r\<close> the greedy \<open>r?\<close>, \<open>Bol\<close> is \<open>^\<close>,
  \<open>Eol\<close> is \<open>$\<close> (no MULTILINE flag: the end of the string, or just before a final
  newline), \<open>WordB W\<close> is \<open>\b\<close> for the word class \<open>W\<close>. Capturing parentheses only group
  here (no pattern refers back to a group), so they have no constructor.
\<close>

datatype re =
    Eps
  | Cls "nat \<Rightarrow> bool"
  | Rep nat "nat \<Rightarrow> bool"
  | Opt re
  | Seq re re
  | Bol
  | Eol
  | WordB "nat \<Rightarrow> bool"

text \<open>
  A position in the subject string: the character just before it (\<open>None\<close> at the start
  of the string) and the text from it on.
\<close>

type_synonym pos = "nat option \<times> str"

text \<open>
  Greedy repetition: one more character of the class first; stopping here is the
  alternative the matcher falls back to, allowed once the minimum count is reached.
\<close>

fun rep_ends :: "nat \<Rightarrow> (nat \<Rightarrow> bool) \<Rightarrow> nat option \<Rightarrow> str \<Rightarrow> pos list" where
  "rep_ends n P p [] = (if n = 0 then [(p, [])] else [])"
| "rep_ends n P p (c # t) =
     (if P c then rep_ends (n - 1) P (Some c) t @ (if n = 0 then [(p, c # t)] else [])
      else if n = 0 then [(p, c # t)] else [])"

text \<open>
  \<open>ends r q\<close>: the positions where a match of \<open>r\<close> that starts at position \<open>q\<close> can end,
  in the order in which the backtracking matcher tries them.
\<close>

fun ends :: "re \<Rightarrow> pos \<Rightarrow> pos list" where
  "ends Eps q = [q]"
| "ends (Cls P) (p, t) = (case t of [] \<Rightarrow> [] | c # t' \<Rightarrow> if P c then [(Some c, t')] else [])"
| "ends (Rep n P) (p, t) = rep_ends n P p t"
| "ends (Opt r) q = ends r q @ [q]"
| "ends (Seq a b) q = concat (map (ends b) (ends a q))"
| "ends Bol (p, t) = (if p = None then [(p, t)] else [])"
| "ends Eol (p, t) = (if t = [] \<or> t = [10] then [(p, t)] else [])"
| "ends (WordB W) (p, t) =
     (if (case p of None \<Rightarrow> False | Some c \<Rightarrow> W c) \<noteq> (case t of [] \<Rightarrow> False | c # _ \<Rightarrow> W c)
      then [(p, t)] else [])"

primrec cat :: "re list \<Rightarrow> re" where
  "cat [] = Eps"
| "cat (r # rs) = Seq r (cat rs)"

text \<open>\<open>pattern.match(s)\<close> as a truth value: is there a match starting at position 0.\<close>

definition re_match :: "re \<Rightarrow> str \<Rightarrow> bool" where
  "re_match r s = (ends r (None, s) \<noteq> [])"

text \<open>
  \<open>pattern.sub(repl, s)\<close> for a replacement without group references: scan from the
  left, replace the first match found at the leftmost position and go on behind it.
  None of the program's substitution patterns can match the empty string, so an empty
  match is treated like no match at that position.
\<close>

function sub_from :: "re \<Rightarrow> str \<Rightarrow> nat option \<Rightarrow> str \<Rightarrow> str" where
  "sub_from r repl p [] = []"
| "sub_from r repl p (c # t) =
     (case ends r (p, c # t) of
        [] \<Rightarrow> c # sub_from r repl (Some c) t
      | (p', t') # _ \<Rightarrow>
          if length t' \<le> length t then repl @ sub_from r repl p' t'
          else c # sub_from r repl (Some c) t)"
  by pat_completeness auto
termination
  by (relation "measure (\<lambda>(r, repl, p, t). length t)") auto

definition re_sub :: "re \<Rightarrow> str \<Rightarrow> str \<Rightarrow> str" where
  "re_sub r repl s = sub_from r repl None s"

section \<open>The patterns of convert.py\<close>

definition ascii_letter :: "nat \<Rightarrow> bool" where
  "ascii_letter c = ((65 \<le> c \<and> c \<le> 90) \<or> (97 \<le> c \<and> c \<le> 122))"

definition ascii_letter_digit :: "nat \<Rightarrow> bool" where
  "ascii_letter_digit c = (ascii_letter c \<or> (48 \<le> c \<and> c \<le> 57))"

text \<open>
  The class \<open>\w\<close> of a \<open>str\<close> pattern: the underscore and every code point that
  \<open>str.isalnum\<close> accepts. The table behind \<open>str.isalnum\<close> belongs to the Python runtime;
  it is the parameter \<open>alnum\<close> of the model, asked about the code points beyond ASCII
  (in ASCII the class is the letters, the digits and the underscore).
\<close>

definition is_word :: "(nat \<Rightarrow> bool) \<Rightarrow> nat \<Rightarrow> bool" where
  "is_word alnum c = (if c < 128 then c = 95 \<or> ascii_letter_digit c else alnum c)"

text \<open>\<^verbatim>\<open>RE_FENCED_DIV_LINE = re.compile(r"^\s*:::+\s*(\{.*\})?\s*$")\<close>\<close>

definition RE_FENCED_DIV_LINE :: re where
  "RE_FENCED_DIV_LINE =
     cat [Bol, Rep 0 isspace, Cls (\<lambda>c. c = 58), Cls (\<lambda>c. c = 58), Rep 1 (\<lambda>c. c = 58),
          Rep 0 isspace,
          Opt (cat [Cls (\<lambda>c. c = 123), Rep 0 (\<lambda>c. c \<noteq> 10), Cls (\<lambda>c. c = 125)]),
          Rep 0 isspace, Eol]"

text \<open>\<^verbatim>\<open>RE_ATTR_TRAILING = re.compile(r"\s*\{[^}]*\}\s*$")\<close>\<close>

definition RE_ATTR_TRAILING :: re where
  "RE_ATTR_TRAILING =
     cat [Rep 0 isspace, Cls (\<lambda>c. c = 123), Rep 0 (\<lambda>c. c \<noteq> 125), Cls (\<lambda>c. c = 125),
          Rep 0 isspace, Eol]"

text \<open>\<^verbatim>\<open>RE_HTML_TAG = re.compile(r"</?([A-Za-z][A-Za-z0-9]*)\b[^>]*>")\<close>\<close>

definition RE_HTML_TAG :: "(nat \<Rightarrow> bool) \<Rightarrow> re" where
  "RE_HTML_TAG alnum =
     cat [Cls (\<lambda>c. c = 60), Opt (Cls (\<lambda>c. c = 47)), Cls ascii_letter, Rep 0 ascii_letter_digit,
          WordB (is_word alnum), Rep 0 (\<lambda>c. c \<noteq> 62), Cls (\<lambda>c. c = 62)]"

text \<open>\<^verbatim>\<open>RE_MULTI_BLANK = re.compile(r"\n{3,}")\<close>\<close>

definition RE_MULTI_BLANK :: re where
  "RE_MULTI_BLANK = Rep 3 (\<lambda>c. c = 10)"

section \<open>clean_markdown\<close>

text \<open>The loop over the lines: a fenced-container line is skipped (\<open>continue\<close>).\<close>

fun clean_lines :: "(nat \<Rightarrow> bool) \<Rightarrow> str list \<Rightarrow> str list" where
  "clean_lines alnum [] = []"
| "clean_lines alnum (line # lines) =
     (if re_match RE_FENCED_DIV_LINE line then clean_lines alnum lines
      else rstrip (re_sub (RE_HTML_TAG alnum) [] (re_sub RE_ATTR_TRAILING [] line))
           # clean_lines alnum lines)"

definition clean_markdown :: "(nat \<Rightarrow> bool) \<Rightarrow> str \<Rightarrow> str" where
  "clean_markdown alnum md_text =
     (let lines = splitlines md_text;
          out_lines = clean_lines alnum lines;
          text = join [10] out_lines;
          text = re_sub RE_MULTI_BLANK [10, 10] text;
          text = join [10] (map (\<lambda>l. if strip l = [] then [] else l) (splitlines text))
      in strip text @ [10])"

section \<open>Paths and the skip list\<close>

text \<open>
  A \<open>pathlib\<close> path is modelled by its \<open>parts\<close> (for an absolute POSIX path the first
  part is the root \<open>/\<close>). \<open>relative_to\<close> raises \<open>ValueError\<close> unless the parts of the
  base are a prefix of the parts of the path; against the empty base an absolute path
  raises as well.
\<close>

type_synonym path = "str list"





section \<open>The fallback driver\<close>

definition TO_CANDIDATES :: "str list" where
  "TO_CANDIDATES =
     [lit ''gfm-raw_html-fenced_divs-bracketed_spans'',
      lit ''gfm-raw_html-fenced_divs'',
      lit ''gfm-raw_html'',
      lit ''gfm'',
      lit ''markdown-raw_html'',
      lit ''markdown'',
      lit ''plain'']"

definition PANDOC_ARGS :: "str list" where
  "PANDOC_ARGS = [lit ''--wrap=none'']"

text \<open>
  What the program asks of its surroundings, over a state \<open>'w\<close> of the file system.
  Each of these calls can raise instead of returning; an exception is the value
  \<open>Inl e\<close>. \<open>subprocess_run\<close> is \<open>subprocess.run\<close> with captured text output, without
  the effect of \<open>check=True\<close> (it raises when the program cannot be started); \<open>mkdir\<close> is
  \<open>mkdir(parents=True, exist_ok=True)\<close>; \<open>read_text\<close> reads a file as UTF-8 strictly,
  \<open>read_text_replace\<close> with \<open>errors="replace"\<close>; \<open>write_text\<close> writes a file;
  \<open>path_str\<close> is \<open>str(path)\<close>, \<open>parent\<close> is \<open>path.parent\<close>, \<open>isalnum\<close> is the table behind
  \<open>str.isalnum\<close>.
\<close>

datatype io_error = UnicodeDecodeError | FileNotFoundError | OSError

datatype completed = Completed (returncode: int) (stdout: str) (stderr: str)

record 'w runtime =
  subprocess_run :: "str list \<Rightarrow> 'w \<Rightarrow> (io_error + completed) \<times> 'w"
  mkdir :: "path \<Rightarrow> 'w \<Rightarrow> (io_error + unit) \<times> 'w"
  read_text :: "path \<Rightarrow> 'w \<Rightarrow> io_error + str"
  read_text_replace :: "path \<Rightarrow> 'w \<Rightarrow> io_error + str"
  write_text :: "path \<Rightarrow> str \<Rightarrow> 'w \<Rightarrow> (io_error + unit) \<times> 'w"
  path_str :: "path \<Rightarrow> str"
  parent :: "path \<Rightarrow> path"
  isalnum :: "nat \<Rightarrow> bool"

text \<open>
  The state threaded through the driver: the file system, and the list of the commands
  run so far (kept by the model, to speak about which candidates were invoked).
\<close>

type_synonym 'w state = "'w \<times> str list list"

definition pandoc_cmd :: "'w runtime \<Rightarrow> path \<Rightarrow> path \<Rightarrow> path \<Rightarrow> str \<Rightarrow> str list" where
  "pandoc_cmd rt docx_path out_md media_dir to_format =
     [lit ''pandoc'', lit ''-f'', lit ''docx'', lit ''-t'', to_format,
      lit ''--extract-media='' @ path_str rt media_dir] @ PANDOC_ARGS @
     [path_str rt docx_path, lit ''-o'', path_str rt out_md]"

text \<open>
  \<open>check=True\<close> raises \<open>CalledProcessError\<close> exactly when the return code is not 0, and
  \<open>run_pandoc\<close> catches that one exception; any other exception of \<open>subprocess.run\<close>
  leaves \<open>run_pandoc\<close> as it is.
\<close>

definition run_pandoc ::
  "'w runtime \<Rightarrow> path \<Rightarrow> path \<Rightarrow> path \<Rightarrow> str \<Rightarrow> 'w state \<Rightarrow>
   (io_error + bool \<times> str) \<times> 'w state" where
  "run_pandoc rt docx_path out_md media_dir to_format st =
     (let cmd = pandoc_cmd rt docx_path out_md media_dir to_format;
          (r, w) = subprocess_run rt cmd (fst st);
          st' = (w, snd st @ [cmd])
      in case r of
           Inl e \<Rightarrow> (Inl e, st')
         | Inr p \<Rightarrow>
             if returncode p = 0 then (Inr (True, strip (stderr p)), st')
             else (Inr (False, strip (if stderr p \<noteq> [] then stderr p
                                      else if stdout p \<noteq> [] then stdout p else [])), st'))"

text \<open>
  Lines 125 to 129: read the converted file back (only \<open>UnicodeDecodeError\<close> is caught,
  and answered by the second read), clean it, write it.
\<close>

definition read_back :: "'w runtime \<Rightarrow> path \<Rightarrow> 'w \<Rightarrow> io_error + str" where
  "read_back rt out_md w =
     (if read_text rt out_md w = Inl UnicodeDecodeError then read_text_replace rt out_md w
      else read_text rt out_md w)"

definition clean_output :: "'w runtime \<Rightarrow> path \<Rightarrow> 'w \<Rightarrow> (io_error + unit) \<times> 'w" where
  "clean_output rt out_md w =
     (case read_back rt out_md w of
        Inl e \<Rightarrow> (Inl e, w)
      | Inr md_text \<Rightarrow> write_text rt out_md (clean_markdown (isalnum rt) md_text) w)"

text \<open>The \<open>for\<close> loop of \<open>convert_with_fallback\<close>, from the candidates still to try.\<close>

fun fallback_loop ::
  "'w runtime \<Rightarrow> path \<Rightarrow> path \<Rightarrow> path \<Rightarrow> str list \<Rightarrow> str \<Rightarrow> 'w state \<Rightarrow>
   (io_error + bool \<times> str \<times> str) \<times> 'w state" where
  "fallback_loop rt docx_path out_md media_dir [] last_error st =
     (Inr (False, [], last_error), st)"
| "fallback_loop rt docx_path out_md media_dir (to_format # rest) last_error st =
     (case run_pandoc rt docx_path out_md media_dir to_format st of
        (Inl e, st1) \<Rightarrow> (Inl e, st1)
      | (Inr (ok, msg), st1) \<Rightarrow>
          if ok then
            (case clean_output rt out_md (fst st1) of
               (Inl e, w2) \<Rightarrow> (Inl e, (w2, snd st1))
             | (Inr u, w2) \<Rightarrow> (Inr (True, to_format, msg), (w2, snd st1)))
          else fallback_loop rt docx_path out_md media_dir rest
                 (lit ''['' @ to_format @ lit ''] '' @ msg) st1)"

text \<open>The two \<open>mkdir\<close> calls before the loop.\<close>

definition prepare :: "'w runtime \<Rightarrow> path \<Rightarrow> path \<Rightarrow> 'w \<Rightarrow> (io_error + unit) \<times> 'w" where
  "prepare rt out_md media_dir w =
     (case mkdir rt (parent rt out_md) w of
        (Inl e, w1) \<Rightarrow> (Inl e, w1)
      | (Inr u, w1) \<Rightarrow> mkdir rt media_dir w1)"

definition convert_with_fallback ::
  "'w runtime \<Rightarrow> path \<Rightarrow> path \<Rightarrow> path \<Rightarrow> 'w state \<Rightarrow>
   (io_error + bool \<times> str \<times> str) \<times> 'w state" where
  "convert_with_fallback rt docx_path out_md media_dir st =
     (case prepare rt out_md media_dir (fst st) of
        (Inl e, w) \<Rightarrow> (Inl e, (w, snd st))
      | (Inr u, w) \<Rightarrow> fallback_loop rt docx_path out_md media_dir TO_CANDIDATES [] (w, snd st))"

text \<open>
  The converter run on the candidates one after the other, each from the state the one
  before has left, with its outcome and the state behind it. Up to its first success
  this is what the loop does.
\<close>

fun attempts ::
  "'w runtime \<Rightarrow> path \<Rightarrow> path \<Rightarrow> path \<Rightarrow> str list \<Rightarrow> 'w state \<Rightarrow>
   ((io_error + bool \<times> str) \<times> 'w state) list" where
  "attempts rt docx_path out_md media_dir [] st = []"
| "attempts rt docx_path out_md media_dir (to_format # rest) st =
     run_pandoc rt docx_path out_md media_dir to_format st #
     attempts rt docx_path out_md media_dir rest
       (snd (run_pandoc rt docx_path out_md media_dir to_format st))"

text \<open>
  A stand-in for the surroundings, used for concrete runs of the driver. Its state
  counts the converter runs: the converter exits with 0 in the run numbered \<open>ok_at\<close>
  (counted from 0) and with 1 and the diagnostic \<open>boom\<close> in every other run, whatever
  the format; the converted file can be read back when \<open>readable\<close> holds and is missing
  otherwise.
\<close>

definition fake_runtime :: "nat option \<Rightarrow> bool \<Rightarrow> nat runtime" where
  "fake_runtime ok_at readable =
     \<lparr> subprocess_run = (\<lambda>cmd w. (if ok_at = Some w then Inr (Completed 0 [] [])
                                      else Inr (Completed 1 [] (lit ''boom'')), Suc w)),
       mkdir = (\<lambda>p w. (Inr (), w)),
       read_text = (\<lambda>p w. if readable then Inr (lit ''text {.a}'') else Inl FileNotFoundError),
       read_text_replace = (\<lambda>p w. if readable then Inr (lit ''text {.a}'') else Inl FileNotFoundError),
       write_text = (\<lambda>p t w. (Inr (), w)),
       path_str = (\<lambda>p. join (lit ''/'') p),
       parent = butlast,
       isalnum = (\<lambda>c. False) \<rparr>"

section \<open>Notions used in the proofs\<close>

text \<open>\<open>chomp\<close> removes one final newline, if there is one.\<close>

definition chomp :: "str \<Rightarrow> str" where
  "chomp t = (if t \<noteq> [] \<and> last t = 10 then butlast t else t)"

text \<open>A text whose only line boundaries are newlines.\<close>

definition only_nl :: "str \<Rightarrow> bool" where
  "only_nl t = (\<forall>c \<in> set t. \<not> is_linebreak c \<or> c = 10)"

text \<open>A line as the loop of \<open>clean_markdown\<close> leaves it: no line boundary in it, no
  whitespace at its end.\<close>

definition good_line :: "str \<Rightarrow> bool" where
  "good_line l = ((\<forall>c \<in> set l. \<not> is_linebreak c) \<and> (l = [] \<or> \<not> isspace (last l)))"

text \<open>No whitespace other than a newline stands just before a newline or at the end
  of the text.\<close>

fun no_trail :: "str \<Rightarrow> bool" where
  "no_trail [] = True"
| "no_trail (c # t) = ((\<not> (t = [] \<or> hd t = 10) \<or> \<not> isspace c \<or> c = 10) \<and> no_trail t)"

text \<open>
  What \<open>RE_MULTI_BLANK.sub("\n\n", text)\<close> computes, as a recursion over the text:
  a run of three or more newlines becomes two newlines, everything else is kept.
\<close>

function squeeze :: "str \<Rightarrow> str" where
  "squeeze [] = []"
| "squeeze (c # t) =
     (if 3 \<le> length (takeWhile (\<lambda>c. c = 10) (c # t))
      then [10, 10] @ squeeze (dropWhile (\<lambda>c. c = 10) (c # t))
      else c # squeeze t)"
  by pat_completeness auto

lemma squeeze_term:
  assumes "3 \<le> length (takeWhile (\<lambda>c. c = (10::nat)) (c # t))"
  shows "length (dropWhile (\<lambda>c. c = (10::nat)) (c # t)) < Suc (length t)"
proof -
  have "c = 10" using assms by (cases "c = 10") simp_all
  then have "dropWhile (\<lambda>c. c = (10::nat)) (c # t) = dropWhile (\<lambda>c. c = (10::nat)) t" by simp
  moreover have "length (dropWhile (\<lambda>c. c = (10::nat)) t) \<le> length t" by (rule length_dropWhile_le)
  ultimately show ?thesis by (simp only: less_Suc_eq_le)
qed

termination squeeze
proof (relation "measure length")
  show "wf (measure length)" by (rule wf_measure)
next
  fix c :: nat and t :: str
  assume "3 \<le> length (takeWhile (\<lambda>c. c = 10) (c # t))"
  then have "length (dropWhile (\<lambda>c. c = (10::nat)) (c # t)) < Suc (length t)" by (rule squeeze_term)
  then show "(dropWhile (\<lambda>c. c = 10) (c # t), c # t) \<in> measure length"
    by (simp only: in_measure list.size(4) length_Cons)
next
  fix c :: nat and t :: str
  show "(t, c # t) \<in> measure length" by simp
qed

declare squeeze.simps(2) [simp del]

text \<open>The text \<open>"\n".join(out_lines)\<close> inside \<open>clean_markdown\<close>.\<close>

definition joined :: "(nat \<Rightarrow> bool) \<Rightarrow> str \<Rightarrow> str" where
  "joined W x = join [10] (clean_lines W (splitlines x))"

text \<open>What holds of the output of \<open>clean_markdown\<close> before its final newline.\<close>

definition normal :: "str \<Rightarrow> bool" where
  "normal s = (only_nl s \<and> no_trail s \<and> \<not> sublist [10, 10, 10] s \<and> strip s = s)"

text \<open>
  \<open>reach r t t'\<close>: from whatever stands before it, the text \<open>t\<close> has a match of \<open>r\<close> at
  its start that leaves \<open>t'\<close>.
\<close>

definition reach :: "re \<Rightarrow> str \<Rightarrow> str \<Rightarrow> bool" where
  "reach r t t' = (\<forall>p. \<exists>p'. (p', t') \<in> set (ends r (p, t)))"

text \<open>
  A fenced-container line in the words of the spec: a line (no line boundary in it)
  that consists of three or more colons and, optionally, a brace-delimited attribute
  group behind them, with optional blanks between the two, as in \<open>:::\<close> and
  \<open>::: {.note}\<close>. The colon is 58, the braces are 123 and 125.
\<close>

definition container_line :: "str \<Rightarrow> bool" where
  "container_line l =
     ((\<forall>c \<in> set l. \<not> is_linebreak c) \<and>
      (\<exists>n sp. 3 \<le> n \<and> (\<forall>c \<in> set sp. isspace c) \<and>
         (l = replicate n 58 @ sp \<or> (\<exists>body. l = replicate n 58 @ sp @ 123 # body @ [125]))))"


section \<open>The skip list: results\<close>



section \<open>The fallback driver: results\<close>

lemma run_pandoc_log:
  "snd (snd (run_pandoc rt d out m f st)) = snd st @ [pandoc_cmd rt d out m f]"
  by (simp add: run_pandoc_def Let_def split: prod.splits sum.splits)

lemma distinct_TO_CANDIDATES: "distinct TO_CANDIDATES"
  by (simp add: TO_CANDIDATES_def lit_def)

text \<open>The loop up to the first success, for any list of candidates.\<close>

lemma fallback_loop_first_success:
  assumes "k < length cands"
    and "\<forall>i<k. \<exists>msg. fst (attempts rt d out m cands st ! i) = Inr (False, msg)"
    and "attempts rt d out m cands st ! k = (Inr (True, msg), stk)"
  shows "fst (fallback_loop rt d out m cands le st) =
           (case fst (clean_output rt out (fst stk)) of
              Inl e \<Rightarrow> Inl e
            | Inr u \<Rightarrow> Inr (True, cands ! k, msg)) \<and>
         snd (snd (fallback_loop rt d out m cands le st)) =
           snd st @ map (pandoc_cmd rt d out m) (take (Suc k) cands)"
  using assms
proof (induction cands arbitrary: k le st)
  case Nil
  then show ?case by simp
next
  case (Cons f fs)
  obtain r st1 where r: "run_pandoc rt d out m f st = (r, st1)" by (cases "run_pandoc rt d out m f st")
  have log1: "snd st1 = snd st @ [pandoc_cmd rt d out m f]"
    using run_pandoc_log[of rt d out m f st] r by simp
  show ?case
  proof (cases k)
    case 0
    with Cons.prems(3) r have r0: "r = Inr (True, msg)" "st1 = stk" by simp_all
    obtain c w2 where c: "clean_output rt out (fst stk) = (c, w2)"
      by (cases "clean_output rt out (fst stk)")
    show ?thesis using r r0 c log1 0 by (cases c) simp_all
  next
    case (Suc j)
    from Cons.prems(2) Suc obtain msg0 where "fst (attempts rt d out m (f # fs) st ! 0) = Inr (False, msg0)"
      by blast
    with r have r0: "r = Inr (False, msg0)" by simp
    have 1: "j < length fs" using Cons.prems(1) Suc by simp
    have 2: "\<forall>i<j. \<exists>msg. fst (attempts rt d out m fs st1 ! i) = Inr (False, msg)"
    proof (intro allI impI)
      fix i assume "i < j"
      then have "Suc i < k" using Suc by simp
      then have "\<exists>msg. fst (attempts rt d out m (f # fs) st ! Suc i) = Inr (False, msg)"
        using Cons.prems(2) by blast
      then show "\<exists>msg. fst (attempts rt d out m fs st1 ! i) = Inr (False, msg)" using r by simp
    qed
    have 3: "attempts rt d out m fs st1 ! j = (Inr (True, msg), stk)"
      using Cons.prems(3) Suc r by simp
    note IH = Cons.IH[OF 1 2 3, of "lit ''['' @ f @ lit ''] '' @ msg0"]
    have nth: "(f # fs) ! k = fs ! j" using Suc by simp
    show ?thesis unfolding nth using IH r r0 log1 Suc by simp
  qed
qed

text \<open>The loop when every candidate fails, for any list of candidates.\<close>

lemma fallback_loop_all_fail:
  assumes "map fst (attempts rt d out m cands st) = map (\<lambda>f. Inr (False, diag f)) cands"
  shows "fst (fallback_loop rt d out m cands le st) =
     Inr (False, [], if cands = [] then le else lit ''['' @ last cands @ lit ''] '' @ diag (last cands))"
  using assms
proof (induction cands arbitrary: le st)
  case Nil
  then show ?case by simp
next
  case (Cons f fs)
  obtain r st1 where r: "run_pandoc rt d out m f st = (r, st1)" by (cases "run_pandoc rt d out m f st")
  from Cons.prems r have r0: "r = Inr (False, diag f)"
    and rest: "map fst (attempts rt d out m fs st1) = map (\<lambda>f. Inr (False, diag f)) fs"
    by simp_all
  show ?case using Cons.IH[OF rest, of "lit ''['' @ f @ lit ''] '' @ diag f"] r r0 by simp
qed

lemma fake_runtime_run:
  "run_pandoc (fake_runtime ok_at rd) d out m f (w, log) =
     (if ok_at = Some w then Inr (True, []) else Inr (False, lit ''boom''),
      (Suc w, log @ [pandoc_cmd (fake_runtime ok_at rd) d out m f]))"
  by (simp add: run_pandoc_def fake_runtime_def Let_def strip_def lstrip_def
      rstrip_def lit_def isspace_def pandoc_cmd_def)

lemma fake_runtime_prepare: "prepare (fake_runtime ok_at rd) out m w = (Inr (), w)"
  by (simp add: prepare_def fake_runtime_def)

lemma fake_runtime_clean_output:
  "fst (clean_output (fake_runtime ok_at rd) out w) = (if rd then Inr () else Inl FileNotFoundError)"
  by (simp add: clean_output_def read_back_def fake_runtime_def)

text \<open>
  C2, as the code has it. The candidates are tried strictly in list order up to the
  first success. Let the two directories be made without an error, and let the
  converter, run on the candidates one after the other, fail for every candidate
  before position \<open>k\<close> and succeed at position \<open>k\<close>. Then the commands the driver has run
  are exactly those of the candidates \<open>0..k\<close>, each once and in order (the candidates are
  pairwise different), so no candidate behind \<open>k\<close> is invoked; and the driver returns
  success with the \<open>k\<close>-th format and the converter's warning text, unless reading the
  converted file back or writing the cleaned text raises, in which case that exception
  leaves the driver instead: only \<open>UnicodeDecodeError\<close> is caught there.
\<close>

theorem convert_with_fallback_first_success:
  assumes "prepare rt out m (fst st) = (Inr (), w0)"
    and "k < length TO_CANDIDATES"
    and "\<forall>i<k. \<exists>msg. fst (attempts rt d out m TO_CANDIDATES (w0, snd st) ! i) = Inr (False, msg)"
    and "attempts rt d out m TO_CANDIDATES (w0, snd st) ! k = (Inr (True, msg), stk)"
  shows "fst (convert_with_fallback rt d out m st) =
           (case fst (clean_output rt out (fst stk)) of
              Inl e \<Rightarrow> Inl e
            | Inr u \<Rightarrow> Inr (True, TO_CANDIDATES ! k, msg)) \<and>
         snd (snd (convert_with_fallback rt d out m st)) =
           snd st @ map (pandoc_cmd rt d out m) (take (Suc k) TO_CANDIDATES) \<and>
         distinct (take (Suc k) TO_CANDIDATES)"
proof -
  have "convert_with_fallback rt d out m st = fallback_loop rt d out m TO_CANDIDATES [] (w0, snd st)"
    using assms(1) by (simp add: convert_with_fallback_def)
  moreover note fallback_loop_first_success[OF assms(2,3,4), of "[]"]
  moreover have "distinct (take (Suc k) TO_CANDIDATES)"
    using distinct_TO_CANDIDATES by (rule distinct_take)
  ultimately show ?thesis by simp
qed

theorem convert_with_fallback_first_success_witness:
  "fst (convert_with_fallback (fake_runtime (Some 3) True) [] [] [] (0, [])) =
     Inr (True, lit ''gfm'', []) \<and>
   snd (snd (convert_with_fallback (fake_runtime (Some 3) True) [] [] [] (0, []))) =
     map (pandoc_cmd (fake_runtime (Some 3) True) [] [] []) (take 4 TO_CANDIDATES) \<and>
   distinct (take 4 TO_CANDIDATES)"
proof -
  let ?rt = "fake_runtime (Some 3) True"
  have h1: "prepare ?rt [] [] (fst (0::nat, [])) = (Inr (), 0)" by (simp add: fake_runtime_prepare)
  have h2: "3 < length TO_CANDIDATES" by (simp add: TO_CANDIDATES_def)
  have three: "\<And>i::nat. i < 3 \<Longrightarrow> i = 0 \<or> i = 1 \<or> i = 2" by arith
  have h3: "\<forall>i<3. \<exists>msg. fst (attempts ?rt [] [] [] TO_CANDIDATES (0, snd (0::nat, [])) ! i) = Inr (False, msg)"
  proof (intro allI impI)
    fix i :: nat
    assume "i < 3"
    then have "i = 0 \<or> i = 1 \<or> i = 2" by (rule three)
    then show "\<exists>msg. fst (attempts ?rt [] [] [] TO_CANDIDATES (0, snd (0::nat, [])) ! i) = Inr (False, msg)"
      by (auto simp: TO_CANDIDATES_def fake_runtime_run)
  qed
  have h4: "attempts ?rt [] [] [] TO_CANDIDATES (0, snd (0::nat, [])) ! 3 =
      (Inr (True, []), (4, map (pandoc_cmd ?rt [] [] []) (take 4 TO_CANDIDATES)))"
    by (simp add: TO_CANDIDATES_def fake_runtime_run)
  have g: "TO_CANDIDATES ! 3 = lit ''gfm''" by (simp add: TO_CANDIDATES_def)
  show ?thesis
    using convert_with_fallback_first_success[OF h1 h2 h3 h4] g
    by (simp add: fake_runtime_clean_output)
qed

theorem first_success_missing_output_counterexample:
  "map fst (take 4 (attempts (fake_runtime (Some 3) False) [] [] [] TO_CANDIDATES (0, []))) =
     [Inr (False, lit ''boom''), Inr (False, lit ''boom''), Inr (False, lit ''boom''), Inr (True, [])] \<and>
   fst (convert_with_fallback (fake_runtime (Some 3) False) [] [] [] (0, [])) = Inl FileNotFoundError"
proof -
  let ?rt = "fake_runtime (Some 3) False"
  have a: "map fst (take 4 (attempts ?rt [] [] [] TO_CANDIDATES (0, []))) =
     [Inr (False, lit ''boom''), Inr (False, lit ''boom''), Inr (False, lit ''boom''), Inr (True, [])]"
    by (simp add: TO_CANDIDATES_def fake_runtime_run)
  have h2: "3 < length TO_CANDIDATES" by (simp add: TO_CANDIDATES_def)
  have three: "\<And>i::nat. i < 3 \<Longrightarrow> i = 0 \<or> i = 1 \<or> i = 2" by arith
  have h3: "\<forall>i<3. \<exists>msg. fst (attempts ?rt [] [] [] TO_CANDIDATES (0, []) ! i) = Inr (False, msg)"
  proof (intro allI impI)
    fix i :: nat
    assume "i < 3"
    then have "i = 0 \<or> i = 1 \<or> i = 2" by (rule three)
    then show "\<exists>msg. fst (attempts ?rt [] [] [] TO_CANDIDATES (0, []) ! i) = Inr (False, msg)"
      by (auto simp: TO_CANDIDATES_def fake_runtime_run)
  qed
  have h4: "attempts ?rt [] [] [] TO_CANDIDATES (0, []) ! 3 =
      (Inr (True, []), (4, map (pandoc_cmd ?rt [] [] []) (take 4 TO_CANDIDATES)))"
    by (simp add: TO_CANDIDATES_def fake_runtime_run)
  have "fst (fallback_loop ?rt [] [] [] TO_CANDIDATES [] (0, [])) = Inl FileNotFoundError"
    using fallback_loop_first_success[OF h2 h3 h4, of "[]"]
    by (simp add: fake_runtime_clean_output)
  then have "fst (convert_with_fallback ?rt [] [] [] (0, [])) = Inl FileNotFoundError"
    by (simp add: convert_with_fallback_def fake_runtime_prepare)
  with a show ?thesis by simp
qed

text \<open>
  C3, as the code has it. Let the two directories be made without an error, and let
  the converter, run on the candidates one after the other, fail for every candidate,
  with the diagnostic text \<open>diag f\<close> for the candidate \<open>f\<close>. Then the driver returns
  failure with no format, and its message is the diagnostic text of the last
  candidate behind the label \<open>[format]\<close> and a blank: the loop stores
  \<open>f"[{to_format}] {msg}"\<close>. The claim says that the message equals the diagnostic
  text; the run below shows the difference.
\<close>

theorem convert_with_fallback_all_fail:
  assumes "prepare rt out m (fst st) = (Inr (), w0)"
    and "map fst (attempts rt d out m TO_CANDIDATES (w0, snd st)) =
           map (\<lambda>f. Inr (False, diag f)) TO_CANDIDATES"
  shows "fst (convert_with_fallback rt d out m st) =
     Inr (False, [], lit ''['' @ last TO_CANDIDATES @ lit ''] '' @ diag (last TO_CANDIDATES))"
proof -
  have "TO_CANDIDATES \<noteq> []" by (simp add: TO_CANDIDATES_def)
  then show ?thesis
    using fallback_loop_all_fail[OF assms(2), of "[]"] assms(1)
    by (simp add: convert_with_fallback_def)
qed

theorem convert_with_fallback_all_fail_witness:
  "fst (convert_with_fallback (fake_runtime None True) [] [] [] (0, [])) =
     Inr (False, [], lit ''['' @ last TO_CANDIDATES @ lit ''] '' @ (\<lambda>f. lit ''boom'') (last TO_CANDIDATES))"
proof -
  let ?rt = "fake_runtime None True"
  have h1: "prepare ?rt [] [] (fst (0::nat, [])) = (Inr (), 0)" by (simp add: fake_runtime_prepare)
  have h2: "map fst (attempts ?rt [] [] [] TO_CANDIDATES (0, snd (0::nat, []))) =
      map (\<lambda>f. Inr (False, (\<lambda>f. lit ''boom'') f)) TO_CANDIDATES"
    by (simp add: TO_CANDIDATES_def fake_runtime_run)
  show ?thesis by (rule convert_with_fallback_all_fail[OF h1 h2])
qed

theorem all_fail_message_counterexample:
  "fst (last (attempts (fake_runtime None True) [] [] [] TO_CANDIDATES (0, []))) = Inr (False, lit ''boom'') \<and>
   fst (convert_with_fallback (fake_runtime None True) [] [] [] (0, [])) = Inr (False, [], lit ''[plain] boom'') \<and>
   lit ''[plain] boom'' \<noteq> lit ''boom''"
proof -
  let ?rt = "fake_runtime None True"
  have a: "fst (last (attempts ?rt [] [] [] TO_CANDIDATES (0, []))) = Inr (False, lit ''boom'')"
    by (simp add: TO_CANDIDATES_def fake_runtime_run)
  have h2: "map fst (attempts ?rt [] [] [] TO_CANDIDATES (0, [])) =
      map (\<lambda>f. Inr (False, (\<lambda>f. lit ''boom'') f)) TO_CANDIDATES"
    by (simp add: TO_CANDIDATES_def fake_runtime_run)
  have ne: "TO_CANDIDATES \<noteq> []" by (simp add: TO_CANDIDATES_def)
  have "fst (fallback_loop ?rt [] [] [] TO_CANDIDATES [] (0, [])) =
      Inr (False, [], lit ''['' @ last TO_CANDIDATES @ lit ''] '' @ lit ''boom'')"
    using fallback_loop_all_fail[OF h2, of "[]"] ne by simp
  moreover have "lit ''['' @ last TO_CANDIDATES @ lit ''] '' @ lit ''boom'' = lit ''[plain] boom''"
    by (simp add: TO_CANDIDATES_def lit_def)
  ultimately have b: "fst (convert_with_fallback ?rt [] [] [] (0, [])) = Inr (False, [], lit ''[plain] boom'')"
    by (simp add: convert_with_fallback_def fake_runtime_prepare)
  have c: "lit ''[plain] boom'' \<noteq> lit ''boom''" by (simp add: lit_def)
  show ?thesis using a b c by simp
qed

section \<open>Lemmas about text, lines and substitution\<close>

lemma linebreak_isspace: "is_linebreak c \<Longrightarrow> isspace c"
  by (auto simp: is_linebreak_def isspace_def)

lemma nl_linebreak [simp]: "is_linebreak 10"
  by (simp add: is_linebreak_def)

lemma nl_isspace [simp]: "isspace 10"
  by (simp add: isspace_def)

subsection \<open>strip\<close>

lemma rstrip_last: "rstrip s = [] \<or> \<not> isspace (last (rstrip s))"
proof (cases "dropWhile isspace (rev s)")
  case Nil
  then show ?thesis by (simp add: rstrip_def)
next
  case (Cons c r)
  then have "\<not> isspace c" by (metis hd_dropWhile list.sel(1) list.distinct(1))
  with Cons show ?thesis by (simp add: rstrip_def)
qed

lemma rstrip_decomp: "\<exists>w. s = rstrip s @ w \<and> (\<forall>c \<in> set w. isspace c)"
proof -
  have "rev s = takeWhile isspace (rev s) @ dropWhile isspace (rev s)" by simp
  then have "s = rev (dropWhile isspace (rev s)) @ rev (takeWhile isspace (rev s))"
    by (metis rev_append rev_rev_ident)
  moreover have "\<forall>c \<in> set (rev (takeWhile isspace (rev s))). isspace c"
    by (auto dest: set_takeWhileD)
  ultimately show ?thesis unfolding rstrip_def by blast
qed

lemma rstrip_id: "s = [] \<or> \<not> isspace (last s) \<Longrightarrow> rstrip s = s"
  by (cases s rule: rev_cases) (auto simp: rstrip_def)

lemma set_rstrip: "set (rstrip s) \<subseteq> set s"
  unfolding rstrip_def by (metis set_dropWhileD set_rev subsetI)

lemma set_lstrip: "set (lstrip s) \<subseteq> set s"
  unfolding lstrip_def by (auto dest: set_dropWhileD)

lemma set_strip: "set (strip s) \<subseteq> set s"
  unfolding strip_def using set_rstrip set_lstrip by blast

lemma lstrip_hd: "lstrip s = [] \<or> \<not> isspace (hd (lstrip s))"
  unfolding lstrip_def by (metis hd_dropWhile)

lemma rstrip_all_space: "(\<forall>c \<in> set s. isspace c) \<Longrightarrow> rstrip s = []"
  by (simp add: rstrip_def)

lemma rstrip_Nil_iff: "rstrip s = [] \<longleftrightarrow> (\<forall>c \<in> set s. isspace c)"
  by (auto simp: rstrip_def dropWhile_eq_Nil_conv)


lemma strip_last: "strip s = [] \<or> \<not> isspace (last (strip s))"
  unfolding strip_def by (rule rstrip_last)

lemma strip_id: "s = [] \<or> (\<not> isspace (hd s) \<and> \<not> isspace (last s)) \<Longrightarrow> strip s = s"
  by (cases s) (auto simp: strip_def lstrip_def rstrip_id)

lemma strip_hd: "strip s = [] \<or> \<not> isspace (hd (strip s))"
proof (cases "lstrip s")
  case Nil
  then show ?thesis by (simp add: strip_def rstrip_def)
next
  case (Cons c r)
  with lstrip_hd[of s] have c: "\<not> isspace c" by simp
  obtain w where w: "c # r = rstrip (c # r) @ w" "\<forall>x \<in> set w. isspace x"
    using rstrip_decomp by blast
  have "rstrip (c # r) \<noteq> []" using c by (auto simp: rstrip_Nil_iff)
  then have "hd (rstrip (c # r)) = c" using w(1) by (metis hd_append2 list.sel(1))
  with c Cons show ?thesis by (simp add: strip_def)
qed

lemma strip_strip: "strip (strip s) = strip s"
  using strip_hd[of s] strip_last[of s] by (intro strip_id) auto

lemma good_line_blank: "good_line l \<Longrightarrow> (if strip l = [] then [] else l) = l"
proof (cases "strip l = []")
  case False
  then show ?thesis by simp
next
  case True
  assume g: "good_line l"
  from True have "\<forall>c \<in> set (lstrip l). isspace c" by (simp add: strip_def rstrip_Nil_iff)
  with lstrip_hd[of l] have "lstrip l = []" by (cases "lstrip l") auto
  then have "\<forall>c \<in> set l. isspace c" by (simp add: lstrip_def dropWhile_eq_Nil_conv)
  with g have "l = []" unfolding good_line_def by (metis last_in_set)
  then show ?thesis by simp
qed

lemma good_line_rstrip: "good_line l \<Longrightarrow> rstrip l = l"
  by (simp add: good_line_def rstrip_id)

subsection \<open>join\<close>

lemma join_Cons: "join sep (x # xs) = (if xs = [] then x else x @ sep @ join sep xs)"
  by (cases xs) auto

lemma set_join: "set (join sep ls) \<subseteq> set sep \<union> \<Union> (set ` set ls)"
  by (induction sep ls rule: join.induct) auto

subsection \<open>splitlines\<close>

lemma splitlines_no_break: "l \<in> set (splitlines s) \<Longrightarrow> c \<in> set l \<Longrightarrow> \<not> is_linebreak c"
proof (induction s arbitrary: l rule: splitlines.induct)
  case 1
  then show ?case by simp
next
  case (2 d s)
  from "2.prems"(1) consider "l = takeWhile (\<lambda>c. \<not> is_linebreak c) (d # s)"
    | "l \<in> set (splitlines (skip_break (dropWhile (\<lambda>c. \<not> is_linebreak c) (d # s))))"
    by (simp del: takeWhile.simps dropWhile.simps) blast
  then show ?case
  proof cases
    case 1
    with "2.prems"(2) show ?thesis by (metis set_takeWhileD)
  next
    case 2
    with "2.IH" "2.prems"(2) show ?thesis by blast
  qed
qed

lemma set_skip_break: "set (skip_break r) \<subseteq> set r"
  by (cases r) (auto dest: in_set_dropD)

lemma splitlines_subset: "l \<in> set (splitlines s) \<Longrightarrow> set l \<subseteq> set s"
proof (induction s arbitrary: l rule: splitlines.induct)
  case 1
  then show ?case by simp
next
  case (2 d s)
  let ?nb = "\<lambda>c. \<not> is_linebreak c"
  from "2.prems"(1) consider "l = takeWhile ?nb (d # s)"
    | "l \<in> set (splitlines (skip_break (dropWhile ?nb (d # s))))"
    by (simp del: takeWhile.simps dropWhile.simps) blast
  then show ?case
  proof cases
    case 1
    then show ?thesis by (metis set_takeWhileD subsetI)
  next
    case 2
    with "2.IH" have "set l \<subseteq> set (skip_break (dropWhile ?nb (d # s)))" by blast
    also have "\<dots> \<subseteq> set (dropWhile ?nb (d # s))" by (rule set_skip_break)
    also have "\<dots> \<subseteq> set (d # s)" by (metis set_dropWhileD subsetI)
    finally show ?thesis .
  qed
qed

subsection \<open>splitlines and join on texts whose only line boundary is the newline\<close>

lemma only_nl_Cons [simp]: "only_nl (c # t) \<longleftrightarrow> (\<not> is_linebreak c \<or> c = 10) \<and> only_nl t"
  by (simp add: only_nl_def)

lemma only_nl_Nil [simp]: "only_nl []"
  by (simp add: only_nl_def)

lemma only_nl_append [simp]: "only_nl (a @ b) \<longleftrightarrow> only_nl a \<and> only_nl b"
  by (auto simp: only_nl_def)

lemma only_nl_subset: "set a \<subseteq> set b \<Longrightarrow> only_nl b \<Longrightarrow> only_nl a"
  by (auto simp: only_nl_def)

lemma chomp_simps [simp]: "chomp [] = []" "chomp [10] = []"
  by (simp_all add: chomp_def)

lemma chomp_Cons: "t \<noteq> [] \<Longrightarrow> chomp (c # t) = c # chomp t"
  by (simp add: chomp_def)

lemma chomp_append: "t \<noteq> [] \<Longrightarrow> chomp (a @ t) = a @ chomp t"
  by (simp add: chomp_def butlast_append)

lemma chomp_snoc [simp]: "chomp (s @ [10]) = s"
  by (simp add: chomp_def)

lemma splitlines_Nil_iff: "splitlines t = [] \<longleftrightarrow> t = []"
  by (cases t) simp_all

text \<open>One step of splitlines on a text whose line boundaries are newlines.\<close>

lemma splitlines_line_nl:
  assumes "\<forall>c \<in> set l. \<not> is_linebreak c"
  shows "splitlines (l @ 10 # r) = l # splitlines r"
proof -
  let ?nb = "\<lambda>c. \<not> is_linebreak c"
  have tw: "takeWhile ?nb (l @ 10 # r) = l" using assms by (simp add: takeWhile_append2 )
  have dw: "dropWhile ?nb (l @ 10 # r) = 10 # r" using assms by (simp add: dropWhile_append2)
  obtain c s where cs: "l @ 10 # r = c # s" by (cases l) auto
  have "splitlines (c # s) = takeWhile ?nb (c # s) # splitlines (skip_break (dropWhile ?nb (c # s)))"
    by (rule splitlines.simps)
  then show ?thesis using tw dw unfolding cs[symmetric] by simp
qed

lemma splitlines_line_end:
  assumes "\<forall>c \<in> set l. \<not> is_linebreak c" "l \<noteq> []"
  shows "splitlines l = [l]"
proof -
  let ?nb = "\<lambda>c. \<not> is_linebreak c"
  have tw: "takeWhile ?nb l = l" using assms by simp
  have dw: "dropWhile ?nb l = []" using assms by simp
  obtain c s where cs: "l = c # s" using assms(2) by (cases l) auto
  have "splitlines (c # s) = takeWhile ?nb (c # s) # splitlines (skip_break (dropWhile ?nb (c # s)))"
    by (rule splitlines.simps)
  then show ?thesis using tw dw unfolding cs[symmetric] by simp
qed

text \<open>Every text splits into a first line and the rest behind the boundary.\<close>

lemma only_nl_decomp:
  assumes "only_nl t"
  shows "(\<forall>c \<in> set t. \<not> is_linebreak c) \<or>
         (\<exists>l r. t = l @ 10 # r \<and> (\<forall>c \<in> set l. \<not> is_linebreak c) \<and> only_nl r)"
proof (cases "\<forall>c \<in> set t. \<not> is_linebreak c")
  case True
  then show ?thesis by simp
next
  case False
  let ?nb = "\<lambda>c. \<not> is_linebreak c"
  have t: "t = takeWhile ?nb t @ dropWhile ?nb t" by simp
  from False have ne: "dropWhile ?nb t \<noteq> []" by (auto simp: dropWhile_eq_Nil_conv)
  then obtain d r where dr: "dropWhile ?nb t = d # r" by (cases "dropWhile ?nb t") auto
  have "\<not> ?nb d" using dr by (metis hd_dropWhile list.sel(1) ne)
  moreover have "d \<in> set t" using dr by (metis list.set_intros(1) set_dropWhileD)
  ultimately have "d = 10" using assms by (auto simp: only_nl_def)
  have "only_nl r" using assms t dr by (metis only_nl_Cons only_nl_append)
  moreover have "\<forall>c \<in> set (takeWhile ?nb t). \<not> is_linebreak c" by (auto dest: set_takeWhileD)
  ultimately show ?thesis using t dr \<open>d = 10\<close> by metis
qed

lemma join_splitlines:
  "only_nl t \<Longrightarrow> join [10] (splitlines t) = chomp t"
proof (induction "length t" arbitrary: t rule: less_induct)
  case less
  show ?case
  proof (cases "t = []")
    case True
    then show ?thesis by simp
  next
    case False
    from only_nl_decomp[OF less.prems] show ?thesis
    proof
      assume nb: "\<forall>c \<in> set t. \<not> is_linebreak c"
      then have "last t \<noteq> 10" using False by (metis last_in_set nl_linebreak)
      then show ?thesis using nb False by (simp add: splitlines_line_end chomp_def)
    next
      assume "\<exists>l r. t = l @ 10 # r \<and> (\<forall>c \<in> set l. \<not> is_linebreak c) \<and> only_nl r"
      then obtain l r where t: "t = l @ 10 # r" and l: "\<forall>c \<in> set l. \<not> is_linebreak c"
        and r: "only_nl r" by blast
      have IH: "join [10] (splitlines r) = chomp r" using less.hyps[of r] r t by simp
      show ?thesis
      proof (cases "r = []")
        case True
        then show ?thesis using t l by (simp add: splitlines_line_nl)
      next
        case False
        then have "splitlines r \<noteq> []" by (simp add: splitlines_Nil_iff)
        then have "join [10] (l # splitlines r) = l @ [10] @ chomp r"
          using IH by (simp add: join_Cons)
        also have "\<dots> = chomp (l @ 10 # r)" using False
          by (simp add: chomp_append[of "10 # r" l] chomp_Cons)
        finally show ?thesis using t l by (simp add: splitlines_line_nl)
      qed
    qed
  qed
qed

subsection \<open>no_trail\<close>

lemma no_trail_suffix: "no_trail (a @ b) \<Longrightarrow> no_trail b"
  by (induction a) auto

lemma no_trail_mid:
  "no_trail (a @ c # b) \<Longrightarrow> b = [] \<or> hd b = 10 \<Longrightarrow> \<not> isspace c \<or> c = 10"
  using no_trail_suffix[of a "c # b"] by auto

lemma no_trail_snoc_nl: "no_trail (t @ [10]) \<Longrightarrow> no_trail t"
proof (induction t)
  case Nil
  then show ?case by simp
next
  case (Cons c t)
  then show ?case by (cases t) auto
qed

lemma no_trail_add_nl: "no_trail t \<Longrightarrow> no_trail (t @ [10])"
proof (induction t)
  case Nil
  then show ?case by simp
next
  case (Cons c t)
  then show ?case by (cases t) auto
qed

lemma no_trail_drop_space:
  "no_trail (p @ w) \<Longrightarrow> \<forall>c \<in> set w. isspace c \<Longrightarrow> no_trail p"
proof (induction w rule: rev_induct)
  case Nil
  then show ?case by simp
next
  case (snoc c w)
  have "\<not> isspace c \<or> c = 10" using no_trail_mid[of "p @ w" c "[]"] snoc.prems(1) by simp
  with snoc.prems(2) have "c = 10" by simp
  with snoc.prems(1) have "no_trail ((p @ w) @ [10])" by simp
  then have "no_trail (p @ w)" by (rule no_trail_snoc_nl)
  with snoc show ?case by simp
qed

lemma no_trail_chomp: "no_trail t \<Longrightarrow> no_trail (chomp t)"
proof (cases "t \<noteq> [] \<and> last t = 10")
  case True
  assume "no_trail t"
  moreover from True have "t = butlast t @ [10]" by (metis append_butlast_last_id)
  ultimately show ?thesis using True no_trail_snoc_nl[of "butlast t"] by (simp add: chomp_def)
next
  case False
  assume "no_trail t"
  with False show ?thesis by (auto simp: chomp_def)
qed

lemma no_trail_strip: assumes "no_trail t" shows "no_trail (strip t)"
proof -
  have "\<exists>a. t = a @ lstrip t" unfolding lstrip_def by (metis takeWhile_dropWhile_id)
  then have 1: "no_trail (lstrip t)" using assms no_trail_suffix by metis
  obtain w where "lstrip t = rstrip (lstrip t) @ w" "\<forall>c \<in> set w. isspace c"
    using rstrip_decomp by blast
  with 1 show ?thesis unfolding strip_def using no_trail_drop_space by metis
qed

lemma good_line_no_trail_Cons:
  "good_line l \<Longrightarrow> no_trail X \<Longrightarrow> no_trail (l @ 10 # X)"
proof (induction l)
  case Nil
  then show ?case by simp
next
  case (Cons c l)
  have gl: "good_line l" using Cons.prems(1) by (cases l) (auto simp: good_line_def)
  show ?case
  proof (cases l)
    case Nil
    with Cons.prems show ?thesis by (simp add: good_line_def)
  next
    case (Cons d l')
    then have "d \<noteq> 10" using Cons.prems(1) unfolding good_line_def
      by (metis list.set_intros(1) list.set_intros(2) nl_linebreak)
    with Cons Cons.IH[OF gl Cons.prems(2)] show ?thesis by simp
  qed
qed

lemma good_line_no_trail: "good_line l \<Longrightarrow> no_trail l"
proof (induction l)
  case Nil
  then show ?case by simp
next
  case (Cons c l)
  have gl: "good_line l" using Cons.prems(1) by (cases l) (auto simp: good_line_def)
  show ?case
  proof (cases l)
    case Nil
    with Cons.prems show ?thesis by (simp add: good_line_def)
  next
    case (Cons d l')
    then have "d \<noteq> 10" using Cons.prems(1) unfolding good_line_def
      by (metis list.set_intros(1) list.set_intros(2) nl_linebreak)
    with Cons Cons.IH[OF gl] show ?thesis by simp
  qed
qed

lemma no_trail_join: "\<forall>l \<in> set ls. good_line l \<Longrightarrow> no_trail (join [10] ls)"
proof (induction "[10::nat]" ls rule: join.induct)
  case 1
  then show ?case by simp
next
  case (2 x)
  then show ?case by (simp add: good_line_no_trail)
next
  case (3 x y r)
  then show ?case by (simp add: good_line_no_trail_Cons)
qed

lemma only_nl_join: "\<forall>l \<in> set ls. good_line l \<Longrightarrow> only_nl (join [10] ls)"
proof -
  assume g: "\<forall>l \<in> set ls. good_line l"
  have "\<forall>c \<in> set (join [10] ls). \<not> is_linebreak c \<or> c = 10"
  proof
    fix c assume "c \<in> set (join [10] ls)"
    then have "c \<in> set [10] \<union> \<Union> (set ` set ls)" using set_join by blast
    then show "\<not> is_linebreak c \<or> c = 10" using g by (auto simp: good_line_def)
  qed
  then show ?thesis by (simp add: only_nl_def)
qed

text \<open>The lines of a tidy text are good lines.\<close>

lemma splitlines_good:
  "only_nl t \<Longrightarrow> no_trail t \<Longrightarrow> l \<in> set (splitlines t) \<Longrightarrow> good_line l"
proof (induction "length t" arbitrary: t rule: less_induct)
  case less
  show ?case
  proof (cases "t = []")
    case True
    with less.prems show ?thesis by simp
  next
    case False
    from only_nl_decomp[OF less.prems(1)] show ?thesis
    proof
      assume nb: "\<forall>c \<in> set t. \<not> is_linebreak c"
      then have "l = t" using less.prems(3) False by (simp add: splitlines_line_end)
      moreover have "\<not> isspace (last t) \<or> last t = 10"
        using no_trail_mid[of "butlast t" "last t" "[]"] less.prems(2) False by simp
      moreover have "last t \<noteq> 10" using nb False by (metis last_in_set nl_linebreak)
      ultimately show ?thesis using nb by (simp add: good_line_def)
    next
      assume "\<exists>l r. t = l @ 10 # r \<and> (\<forall>c \<in> set l. \<not> is_linebreak c) \<and> only_nl r"
      then obtain l0 r where t: "t = l0 @ 10 # r" and l0: "\<forall>c \<in> set l0. \<not> is_linebreak c"
        and r: "only_nl r" by blast
      have "l = l0 \<or> l \<in> set (splitlines r)" using less.prems(3) t l0
        by (simp add: splitlines_line_nl)
      then show ?thesis
      proof
        assume "l = l0"
        show ?thesis
        proof (cases "l0 = []")
          case True
          with \<open>l = l0\<close> show ?thesis by (simp add: good_line_def)
        next
          case False
          have "l0 @ 10 # r = butlast l0 @ last l0 # (10 # r)"
            using False by (metis append_butlast_last_id append.assoc append_Cons append_Nil)
          moreover have "no_trail (l0 @ 10 # r)" using less.prems(2) t by simp
          ultimately have "no_trail (butlast l0 @ last l0 # (10 # r))" by metis
          then have "\<not> isspace (last l0) \<or> last l0 = 10"
            using no_trail_mid[of "butlast l0" "last l0" "10 # r"] by simp
          moreover have "last l0 \<noteq> 10" using l0 False by (metis last_in_set nl_linebreak)
          ultimately show ?thesis using l0 \<open>l = l0\<close> by (simp add: good_line_def)
        qed
      next
        assume "l \<in> set (splitlines r)"
        moreover have "no_trail r" using less.prems(2) t no_trail_suffix[of "l0 @ [10]" r] by simp
        ultimately show ?thesis using less.hyps[of r] r t by simp
      qed
    qed
  qed
qed

subsection \<open>The matcher\<close>

lemma rep_ends_suffix: "q \<in> set (rep_ends n P p t) \<Longrightarrow> suffix (snd q) t"
proof (induction t arbitrary: n p)
  case Nil
  then show ?case by (auto split: if_splits)
next
  case (Cons c t)
  then show ?case by (auto split: if_splits intro: suffix_ConsI)
qed

lemma ends_suffix: "q' \<in> set (ends r q) \<Longrightarrow> suffix (snd q') (snd q)"
proof (induction r arbitrary: q q')
  case Eps
  then show ?case by simp
next
  case (Cls P)
  then show ?case by (cases q) (auto split: list.splits if_splits intro: suffix_ConsI)
next
  case (Rep n P)
  then show ?case by (cases q) (auto dest: rep_ends_suffix)
next
  case (Opt r)
  from Opt.prems have "q' \<in> set (ends r q) \<or> q' = q" by auto
  then show ?case
  proof
    assume "q' \<in> set (ends r q)"
    then show ?thesis by (rule Opt.IH)
  next
    assume "q' = q"
    then show ?thesis by simp
  qed
next
  case (Seq a b)
  from Seq.prems obtain q1 where "q1 \<in> set (ends a q)" "q' \<in> set (ends b q1)" by auto
  then show ?case using Seq.IH by (meson suffix_order.trans)
next
  case Bol
  then show ?case by (cases q) (auto split: if_splits)
next
  case Eol
  then show ?case by (cases q) (auto split: if_splits)
next
  case (WordB W)
  then show ?case by (cases q) (auto split: if_splits)
qed

lemma rep_ends_Nil_iff: "rep_ends n P p t = [] \<longleftrightarrow> length (takeWhile P t) < n"
  by (induction t arbitrary: n p) auto

lemma rep_ends_hd:
  "rep_ends n P p t \<noteq> [] \<Longrightarrow> snd (hd (rep_ends n P p t)) = dropWhile P t"
proof (induction t arbitrary: n p)
  case Nil
  then show ?case by (auto split: if_splits)
next
  case (Cons c t)
  show ?case
  proof (cases "P c")
    case False
    with Cons.prems show ?thesis by (auto split: if_splits)
  next
    case True
    have "\<not> length (takeWhile P (c # t)) < n" using Cons.prems rep_ends_Nil_iff by blast
    then have "\<not> length (takeWhile P t) < n - 1" using True by auto
    then have ne: "rep_ends (n - 1) P (Some c) t \<noteq> []" using rep_ends_Nil_iff by blast
    then show ?thesis using True Cons.IH[OF ne] by simp
  qed
qed


lemma rep_ends_complete:
  "\<forall>c \<in> set xs. P c \<Longrightarrow> n \<le> length xs \<Longrightarrow> \<exists>p'. (p', t) \<in> set (rep_ends n P p (xs @ t))"
proof (induction xs arbitrary: n p)
  case Nil
  then show ?case by (cases t) auto
next
  case (Cons c xs)
  have "\<exists>p'. (p', t) \<in> set (rep_ends (n - 1) P (Some c) (xs @ t))"
    using Cons.IH[of "n - 1" "Some c"] Cons.prems by auto
  then show ?case using Cons.prems by auto
qed

subsection \<open>Substitution\<close>

lemma set_sub_from: "set (sub_from r repl p t) \<subseteq> set repl \<union> set t"
proof (induction "length t" arbitrary: t p rule: less_induct)
  case less
  show ?case
  proof (cases t)
    case Nil
    then show ?thesis by simp
  next
    case (Cons c u)
    have IHu: "set (sub_from r repl (Some c) u) \<subseteq> set repl \<union> set u"
      using less[of u "Some c"] Cons by simp
    show ?thesis
    proof (cases "ends r (p, c # u)")
      case Nil
      with IHu Cons show ?thesis by auto
    next
      case (Cons q qs)
      obtain p' t' where q: "q = (p', t')" by (cases q)
      show ?thesis
      proof (cases "length t' \<le> length u")
        case True
        have "suffix t' (c # u)" using ends_suffix[of q r "(p, c # u)"] Cons q by simp
        then have "set t' \<subseteq> set (c # u)" by (rule set_mono_suffix)
        moreover have "set (sub_from r repl p' t') \<subseteq> set repl \<union> set t'"
          using less[of t' p'] True \<open>t = c # u\<close> by simp
        ultimately show ?thesis using Cons q True \<open>t = c # u\<close> by auto
      next
        case False
        with IHu Cons q \<open>t = c # u\<close> show ?thesis by auto
      qed
    qed
  qed
qed



lemma multi_blank_squeeze: "sub_from RE_MULTI_BLANK [10, 10] p t = squeeze t"
proof (induction "length t" arbitrary: t p rule: less_induct)
  case less
  show ?case
  proof (cases t)
    case Nil
    then show ?thesis by simp
  next
    case (Cons c u)
    let ?nl = "\<lambda>c. c = (10::nat)"
    show ?thesis
    proof (cases "3 \<le> length (takeWhile ?nl (c # u))")
      case True
      then have c: "c = 10" by (cases "c = 10") auto
      have ne: "rep_ends 3 ?nl p (c # u) \<noteq> []" using True rep_ends_Nil_iff[of 3 ?nl p "c # u"] by simp
      then obtain q qs where qq: "rep_ends 3 ?nl p (c # u) = q # qs" by (cases "rep_ends 3 ?nl p (c # u)") auto
      obtain p' t' where q: "q = (p', t')" by (cases q)
      have t': "t' = dropWhile ?nl (c # u)" using rep_ends_hd[OF ne] qq q by simp
      then have le: "length t' \<le> length u" using c by (simp add: length_dropWhile_le)
      have "sub_from RE_MULTI_BLANK [10, 10] p' t' = squeeze t'" using less[of t' p'] le Cons by simp
      then have "sub_from RE_MULTI_BLANK [10, 10] p (c # u) = [10, 10] @ squeeze t'"
        using qq q le by (simp add: RE_MULTI_BLANK_def)
      also have "\<dots> = squeeze (c # u)" using True t' by (simp add: squeeze.simps(2))
      finally show ?thesis using Cons by simp
    next
      case False
      then have "rep_ends 3 ?nl p (c # u) = []" using rep_ends_Nil_iff[of 3 ?nl p "c # u"] by simp
      moreover have "sub_from RE_MULTI_BLANK [10, 10] (Some c) u = squeeze u" using less[of u "Some c"] Cons by simp
      ultimately show ?thesis using False Cons by (simp add: RE_MULTI_BLANK_def squeeze.simps(2))
    qed
  qed
qed

lemma squeeze_Nil_iff [simp]: "squeeze t = [] \<longleftrightarrow> t = []"
  by (cases t) (auto simp: squeeze.simps(2))

lemma squeeze_collapse:
  "3 \<le> length (takeWhile (\<lambda>c. c = 10) (c # t)) \<Longrightarrow>
   squeeze (c # t) = 10 # 10 # squeeze (dropWhile (\<lambda>c. c = 10) (c # t))"
  by (subst squeeze.simps(2)) (simp only: if_True append_Cons append_Nil)

lemma squeeze_keep:
  "\<not> 3 \<le> length (takeWhile (\<lambda>c. c = 10) (c # t)) \<Longrightarrow> squeeze (c # t) = c # squeeze t"
  by (subst squeeze.simps(2)) (simp only: if_False)

lemma run3_hd:
  assumes "3 \<le> length (takeWhile (\<lambda>c. c = (10::nat)) (c # t))"
  shows "c = 10"
proof (rule ccontr)
  assume "c \<noteq> 10"
  then have "takeWhile (\<lambda>c. c = (10::nat)) (c # t) = []" by simp
  with assms show False by simp
qed

lemma squeeze_hd:
  assumes "t \<noteq> []"
  shows "hd (squeeze t) = hd t"
proof -
  obtain c u where t: "t = c # u" using assms by (cases t) auto
  show ?thesis
  proof (cases "3 \<le> length (takeWhile (\<lambda>c. c = 10) (c # u))")
    case True
    have "hd (squeeze (c # u)) = 10" by (simp only: squeeze_collapse[OF True] list.sel)
    moreover have "c = 10" using True by (rule run3_hd)
    ultimately show ?thesis by (simp only: t list.sel)
  next
    case False
    show ?thesis by (simp only: t squeeze_keep[OF False] list.sel)
  qed
qed

lemma set_squeeze: "set (squeeze t) \<subseteq> insert 10 (set t)"
  using set_sub_from[of RE_MULTI_BLANK "[10, 10]" None t] by (auto simp: multi_blank_squeeze)

lemma no_trail_Cons_nl: "no_trail (10 # t) = no_trail t"
  by simp

lemma no_trail_squeeze: "no_trail t \<Longrightarrow> no_trail (squeeze t)"
proof (induction t rule: squeeze.induct)
  case 1
  then show ?case by simp
next
  case (2 c t)
  let ?nl = "\<lambda>c. c = (10::nat)"
  show ?case
  proof (cases "3 \<le> length (takeWhile ?nl (c # t))")
    case True
    have "c # t = takeWhile ?nl (c # t) @ dropWhile ?nl (c # t)" by simp
    then have "no_trail (dropWhile ?nl (c # t))" using "2.prems" no_trail_suffix by metis
    then have "no_trail (squeeze (dropWhile ?nl (c # t)))" using "2.IH"(1) True by simp
    then show ?thesis using True by (simp add: squeeze.simps(2))
  next
    case False
    have nt: "no_trail t" using "2.prems" by simp
    then have IH: "no_trail (squeeze t)" using "2.IH"(2) False by simp
    have "t \<noteq> [] \<Longrightarrow> hd (squeeze t) = hd t" by (rule squeeze_hd)
    then show ?thesis using False IH "2.prems" by (auto simp: squeeze.simps(2))
  qed
qed

lemma squeeze_run:
  "length (takeWhile (\<lambda>c. c = 10) t) < 3 \<Longrightarrow>
   takeWhile (\<lambda>c. c = 10) (squeeze t) = takeWhile (\<lambda>c. c = 10) t"
proof (induction t)
  case Nil
  then show ?case by simp
next
  case (Cons c t)
  then show ?case by (cases "c = 10") (auto simp: squeeze.simps(2))
qed

lemma prefix_nnn: "prefix [10, 10, 10] t \<Longrightarrow> 3 \<le> length (takeWhile (\<lambda>c. c = (10::nat)) t)"
  by (auto simp: prefix_def)

lemma run3_prefix: "3 \<le> length (takeWhile (\<lambda>c. c = (10::nat)) t) \<Longrightarrow> prefix [10, 10, 10] t"
proof -
  assume a: "3 \<le> length (takeWhile (\<lambda>c. c = (10::nat)) t)"
  obtain a1 t1 where t1: "t = a1 # t1" using a by (cases t) auto
  with a have a1: "a1 = 10" by (cases "a1 = 10") auto
  obtain a2 t2 where t2: "t1 = a2 # t2" using a t1 a1 by (cases t1) auto
  with a t1 a1 have a2: "a2 = 10" by (cases "a2 = 10") auto
  obtain a3 t3 where t3: "t2 = a3 # t3" using a t1 a1 t2 a2 by (cases t2) auto
  with a t1 a1 t2 a2 have a3: "a3 = 10" by (cases "a3 = 10") auto
  show ?thesis using t1 a1 t2 a2 t3 a3 by simp
qed

lemma squeeze_no3: "\<not> sublist [10, 10, 10] (squeeze t)"
proof (induction t rule: squeeze.induct)
  case 1
  then show ?case by simp
next
  case (2 c t)
  let ?nl = "\<lambda>c. c = (10::nat)"
  show ?case
  proof (cases "3 \<le> length (takeWhile ?nl (c # t))")
    case True
    let ?r = "dropWhile ?nl (c # t)"
    have IH: "\<not> sublist [10, 10, 10] (squeeze ?r)" using "2.IH"(1) True by simp
    have "squeeze ?r = [] \<or> hd (squeeze ?r) \<noteq> 10"
    proof (cases "?r = []")
      case True
      then show ?thesis by simp
    next
      case False
      then have "hd ?r \<noteq> 10" by (rule hd_dropWhile)
      moreover have "hd (squeeze ?r) = hd ?r" using False by (rule squeeze_hd)
      ultimately show ?thesis by simp
    qed
    then have "\<not> prefix [10, 10, 10] (10 # 10 # squeeze ?r)" "\<not> prefix [10, 10, 10] (10 # squeeze ?r)"
      by (cases "squeeze ?r"; auto)+
    then have "\<not> sublist [10, 10, 10] (10 # 10 # squeeze ?r)" using IH
      by (simp add: sublist_Cons_right)
    then show ?thesis using True by (simp add: squeeze.simps(2))
  next
    case False
    have IH: "\<not> sublist [10, 10, 10] (squeeze t)" using "2.IH"(2) False by simp
    have "\<not> prefix [10, 10, 10] (c # squeeze t)"
    proof
      assume p: "prefix [10, 10, 10] (c # squeeze t)"
      then have c: "c = 10" by simp
      from False c have lt: "length (takeWhile ?nl t) < 3" by simp
      from p have "2 \<le> length (takeWhile ?nl (squeeze t))" by (auto simp: prefix_def)
      with squeeze_run[OF lt] have "2 \<le> length (takeWhile ?nl t)" by simp
      with False c show False by simp
    qed
    then show ?thesis using False IH by (simp add: squeeze.simps(2) sublist_Cons_right)
  qed
qed

lemma squeeze_id: "\<not> sublist [10, 10, 10] t \<Longrightarrow> squeeze t = t"
proof (induction t)
  case Nil
  then show ?case by simp
next
  case (Cons c t)
  have "\<not> prefix [10, 10, 10] (c # t)" "\<not> sublist [10, 10, 10] t"
    using Cons.prems by (auto simp: sublist_Cons_right)
  then have "\<not> 3 \<le> length (takeWhile (\<lambda>c. c = 10) (c # t))" "squeeze t = t"
    using run3_prefix Cons.IH by blast+
  then show ?case by (simp add: squeeze.simps(2))
qed

lemma squeeze_append:
  "a = [] \<or> last a \<noteq> 10 \<Longrightarrow> squeeze (a @ t) = squeeze a @ squeeze t"
proof (induction a rule: squeeze.induct)
  case 1
  then show ?case by simp
next
  case (2 c a)
  let ?nl = "\<lambda>c. c = (10::nat)"
  have last: "last (c # a) \<noteq> 10" using "2.prems" by simp
  have lin: "last (c # a) \<in> set (c # a)" by (rule last_in_set) simp
  have ex: "\<exists>x \<in> set (c # a). \<not> ?nl x" using last lin by blast
  have tw: "takeWhile ?nl (c # (a @ t)) = takeWhile ?nl (c # a)"
    using takeWhile_append1[of "last (c # a)" "c # a" ?nl t] last lin by simp
  have dw: "dropWhile ?nl (c # (a @ t)) = dropWhile ?nl (c # a) @ t"
    using dropWhile_append1[of "last (c # a)" "c # a" ?nl t] last lin by simp
  have unf: "squeeze (c # (a @ t)) =
      (if 3 \<le> length (takeWhile ?nl (c # a))
       then [10, 10] @ squeeze (dropWhile ?nl (c # a) @ t) else c # squeeze (a @ t))"
    by (subst squeeze.simps(2)) (simp only: tw dw)
  show ?case
  proof (cases "3 \<le> length (takeWhile ?nl (c # a))")
    case True
    let ?r = "dropWhile ?nl (c # a)"
    have "?r \<noteq> []" using ex by (auto simp: dropWhile_eq_Nil_conv)
    moreover have "suffix ?r (c # a)" by (rule suffix_dropWhile)
    ultimately have "last ?r = last (c # a)" by (metis last_appendR suffix_def)
    then have "squeeze (?r @ t) = squeeze ?r @ squeeze t" using "2.IH"(1) True last by simp
    moreover have "squeeze ((c # a) @ t) = [10, 10] @ squeeze (?r @ t)"
      using True unf by (simp only: append_Cons if_True)
    moreover have "squeeze (c # a) = [10, 10] @ squeeze ?r"
      using True by (subst squeeze.simps(2)) (simp only: if_True)
    ultimately show ?thesis by simp
  next
    case False
    have "a = [] \<or> last a \<noteq> 10" using last by (cases a) auto
    then have "squeeze (a @ t) = squeeze a @ squeeze t" using "2.IH"(2) False by simp
    moreover have "squeeze ((c # a) @ t) = c # squeeze (a @ t)"
      using False unf by (simp only: append_Cons if_False)
    moreover have "squeeze (c # a) = c # squeeze a"
      using False by (subst squeeze.simps(2)) (simp only: if_False)
    ultimately show ?thesis by simp
  qed
qed

lemma squeeze_run3:
  assumes "3 \<le> n" "b = [] \<or> hd b \<noteq> 10"
  shows "squeeze (replicate n 10 @ b) = [10, 10] @ squeeze b"
proof -
  let ?nl = "\<lambda>c. c = (10::nat)"
  obtain m where n: "n = Suc m" using assms(1) by (cases n) auto
  have all: "\<And>x. x \<in> set (replicate n 10) \<Longrightarrow> ?nl x" by simp
  have b: "takeWhile ?nl b = []" "dropWhile ?nl b = b" using assms(2) by (cases b; simp)+
  have tw: "takeWhile ?nl (replicate n 10 @ b) = replicate n 10"
    using takeWhile_append2[of "replicate n 10" ?nl b] all b by simp
  have dw: "dropWhile ?nl (replicate n 10 @ b) = b"
    using dropWhile_append2[of "replicate n 10" ?nl b] all b by simp
  have e: "replicate n 10 @ b = 10 # (replicate m 10 @ b)" using n by simp
  have "squeeze (10 # (replicate m 10 @ b)) =
      (if 3 \<le> length (takeWhile ?nl (10 # (replicate m 10 @ b)))
       then [10, 10] @ squeeze (dropWhile ?nl (10 # (replicate m 10 @ b)))
       else 10 # squeeze (replicate m 10 @ b))"
    by (rule squeeze.simps(2))
  then have "squeeze (replicate n 10 @ b) =
      (if 3 \<le> length (takeWhile ?nl (replicate n 10 @ b))
       then [10, 10] @ squeeze (dropWhile ?nl (replicate n 10 @ b))
       else 10 # squeeze (replicate m 10 @ b))"
    by (simp only: e)
  then show ?thesis using assms(1) by (simp only: tw dw length_replicate if_True)
qed

subsection \<open>The loop over the lines\<close>

lemma set_re_sub: "set (re_sub r [] s) \<subseteq> set s"
  using set_sub_from[of r "[]" None s] by (simp add: re_sub_def)

lemma clean_lines_append:
  "clean_lines W (xs @ ys) = clean_lines W xs @ clean_lines W ys"
  by (induction xs) auto

lemma clean_lines_good:
  "\<forall>l \<in> set ls. \<forall>c \<in> set l. \<not> is_linebreak c \<Longrightarrow> \<forall>l \<in> set (clean_lines W ls). good_line l"
proof (induction ls)
  case Nil
  then show ?case by simp
next
  case (Cons l ls)
  let ?o = "rstrip (re_sub (RE_HTML_TAG W) [] (re_sub RE_ATTR_TRAILING [] l))"
  have "set ?o \<subseteq> set l" using set_rstrip set_re_sub by (meson subset_trans)
  then have "\<forall>c \<in> set ?o. \<not> is_linebreak c" using Cons.prems by auto
  moreover have "?o = [] \<or> \<not> isspace (last ?o)" by (rule rstrip_last)
  ultimately have "good_line ?o" by (simp add: good_line_def)
  moreover have "\<forall>l \<in> set (clean_lines W ls). good_line l" using Cons by simp
  ultimately show ?case by simp
qed

lemma clean_lines_id:
  "\<forall>l \<in> set ls. \<not> re_match RE_FENCED_DIV_LINE l \<and> re_sub RE_ATTR_TRAILING [] l = l \<and>
      re_sub (RE_HTML_TAG W) [] l = l \<and> rstrip l = l \<Longrightarrow> clean_lines W ls = ls"
  by (induction ls) auto

subsection \<open>The shape of the output\<close>

lemma set_chomp: "set (chomp t) \<subseteq> set t"
  by (auto simp: chomp_def dest: in_set_butlastD)

lemma second_pass:
  assumes "only_nl t" "no_trail t"
  shows "join [10] (map (\<lambda>l. if strip l = [] then [] else l) (splitlines t)) = chomp t"
proof -
  have "\<And>l. l \<in> set (splitlines t) \<Longrightarrow> (if strip l = [] then [] else l) = l"
    using splitlines_good[OF assms] good_line_blank by blast
  then have "map (\<lambda>l. if strip l = [] then [] else l) (splitlines t) = splitlines t"
    by (simp add: map_idI)
  then show ?thesis using join_splitlines[OF assms(1)] by simp
qed

lemma joined_tidy: "only_nl (joined W x)" "no_trail (joined W x)"
proof -
  have "\<forall>l \<in> set (splitlines x). \<forall>c \<in> set l. \<not> is_linebreak c"
    using splitlines_no_break by blast
  then have g: "\<forall>l \<in> set (clean_lines W (splitlines x)). good_line l" by (rule clean_lines_good)
  show "only_nl (joined W x)" unfolding joined_def using g by (rule only_nl_join)
  show "no_trail (joined W x)" unfolding joined_def using g by (rule no_trail_join)
qed

lemma squeeze_tidy:
  assumes "only_nl t" "no_trail t"
  shows "only_nl (squeeze t)" "no_trail (squeeze t)"
proof -
  show "only_nl (squeeze t)" using set_squeeze[of t] assms(1) by (auto simp: only_nl_def)
  show "no_trail (squeeze t)" using assms(2) by (rule no_trail_squeeze)
qed

lemma clean_markdown_alt:
  "clean_markdown W x = strip (chomp (squeeze (joined W x))) @ [10]"
proof -
  have "re_sub RE_MULTI_BLANK [10, 10] (joined W x) = squeeze (joined W x)"
    by (simp add: re_sub_def multi_blank_squeeze)
  moreover have "join [10] (map (\<lambda>l. if strip l = [] then [] else l) (splitlines (squeeze (joined W x))))
      = chomp (squeeze (joined W x))"
    using squeeze_tidy[OF joined_tidy] by (rule second_pass)
  ultimately show ?thesis by (simp add: clean_markdown_def joined_def Let_def)
qed

lemma sublist_strip: "sublist (strip t) t"
proof -
  have "suffix (lstrip t) t" unfolding lstrip_def by (rule suffix_dropWhile)
  moreover have "prefix (rstrip (lstrip t)) (lstrip t)"
    using rstrip_decomp[of "lstrip t"] by (metis prefixI)
  ultimately show ?thesis unfolding strip_def
    by (meson prefix_imp_sublist suffix_imp_sublist sublist_order.order.trans)
qed

lemma sublist_chomp: "sublist (chomp t) t"
  by (simp add: chomp_def)

lemma body_normal: "normal (strip (chomp (squeeze (joined W x))))"
proof -
  let ?t2 = "squeeze (joined W x)"
  let ?s = "strip (chomp ?t2)"
  have t2: "only_nl ?t2" "no_trail ?t2" using squeeze_tidy[OF joined_tidy] by blast+
  have "set ?s \<subseteq> set ?t2" using set_strip set_chomp by (meson subset_trans)
  then have 1: "only_nl ?s" using t2(1) by (rule only_nl_subset)
  have 2: "no_trail ?s" using t2(2) by (intro no_trail_strip no_trail_chomp)
  have "sublist ?s ?t2" using sublist_strip sublist_chomp by (meson sublist_order.order.trans)
  then have 3: "\<not> sublist [10, 10, 10] ?s" using squeeze_no3[of "joined W x"]
    by (meson sublist_order.order.trans)
  have 4: "strip ?s = ?s" by (rule strip_strip)
  show ?thesis using 1 2 3 4 by (simp add: normal_def)
qed

lemma normal_last: "normal s \<Longrightarrow> s = [] \<or> last s \<noteq> 10"
proof -
  assume "normal s"
  then have "strip s = s" by (simp add: normal_def)
  then have "s = [] \<or> \<not> isspace (last s)" using strip_last[of s] by simp
  then show ?thesis by auto
qed

lemma normal_hd: "normal s \<Longrightarrow> s = [] \<or> hd s \<noteq> 10"
proof -
  assume "normal s"
  then have "strip s = s" by (simp add: normal_def)
  then have "s = [] \<or> \<not> isspace (hd s)" using strip_hd[of s] by simp
  then show ?thesis by auto
qed

lemma no3_snoc:
  assumes "\<not> sublist [10, 10, 10] s" "s = [] \<or> last s \<noteq> (10::nat)"
  shows "\<not> sublist [10, 10, 10] (s @ [10])"
proof
  assume "sublist [10, 10, 10] (s @ [10])"
  then have "suffix ([10, 10] @ [10]) (s @ [10::nat])" using assms(1) by (simp add: sublist_snoc)
  then have "suffix [10, 10] s" by (simp only: snoc_suffix_snoc)
  then obtain z where "s = z @ [10, 10]" by (auto simp: suffix_def)
  then show False using assms(2) by simp
qed

lemma normal_out:
  assumes "normal s"
  shows "only_nl (s @ [10])" "no_trail (s @ [10])" "\<not> sublist [10, 10, 10] (s @ [10])"
proof -
  show "only_nl (s @ [10])" using assms by (simp add: normal_def)
  show "no_trail (s @ [10])" using assms by (simp add: normal_def no_trail_add_nl)
  show "\<not> sublist [10, 10, 10] (s @ [10])"
    using assms normal_last[OF assms] by (intro no3_snoc) (simp_all add: normal_def)
qed

lemma normal_fixed:
  assumes n: "normal s"
    and st: "\<forall>l \<in> set (splitlines (s @ [10])). \<not> re_match RE_FENCED_DIV_LINE l \<and>
               re_sub RE_ATTR_TRAILING [] l = l \<and> re_sub (RE_HTML_TAG W) [] l = l"
  shows "clean_markdown W (s @ [10]) = s @ [10]"
proof -
  have r: "\<And>l. l \<in> set (splitlines (s @ [10])) \<Longrightarrow> rstrip l = l"
    using splitlines_good[OF normal_out(1,2)[OF n]] good_line_rstrip by blast
  have "clean_lines W (splitlines (s @ [10])) = splitlines (s @ [10])"
    using st r by (intro clean_lines_id) blast
  then have "joined W (s @ [10]) = chomp (s @ [10])"
    using join_splitlines[OF normal_out(1)[OF n]] by (simp add: joined_def)
  then have j: "joined W (s @ [10]) = s" by simp
  have sq: "squeeze s = s" using n by (intro squeeze_id) (simp add: normal_def)
  have ch: "chomp s = s" using normal_last[OF n] by (auto simp: chomp_def)
  have "strip s = s" using n by (simp add: normal_def)
  then show ?thesis using j sq ch by (simp add: clean_markdown_alt)
qed

subsection \<open>Container and attribute lines\<close>

subsection \<open>Matches that exist\<close>

lemma reach_Eol: "reach Eol [] []"
  by (simp add: reach_def)

lemma reach_Cls: "reach (Cls (\<lambda>c. c = a)) (a # t) t"
  by (simp add: reach_def)

lemma reach_Rep:
  assumes "\<forall>c \<in> set xs. P c" "n \<le> length xs"
  shows "reach (Rep n P) (xs @ t) t"
  unfolding reach_def using rep_ends_complete[OF assms] by simp

lemma reach_Rep0: "reach (Rep 0 P) t t"
  using reach_Rep[of "[]" P 0 t] by simp

lemma reach_Opt_skip: "reach (Opt r) t t"
  by (auto simp: reach_def)

lemma reach_Opt_take: "reach r t t' \<Longrightarrow> reach (Opt r) t t'"
  unfolding reach_def by (metis UnCI ends.simps(4) set_append)

lemma reach_cat_Nil: "reach (cat []) t t"
  by (simp add: reach_def)

lemma reach_cat_Cons:
  assumes "reach r t t1" "reach (cat rs) t1 t2"
  shows "reach (cat (r # rs)) t t2"
  unfolding reach_def
proof
  fix p
  from assms(1) obtain p1 where 1: "(p1, t1) \<in> set (ends r (p, t))" unfolding reach_def by blast
  from assms(2) obtain p2 where 2: "(p2, t2) \<in> set (ends (cat rs) (p1, t1))" unfolding reach_def by blast
  from 1 2 have "(p2, t2) \<in> set (ends (cat (r # rs)) (p, t))" by auto
  then show "\<exists>p'. (p', t2) \<in> set (ends (cat (r # rs)) (p, t))" by blast
qed

lemma in_set_nonempty: "x \<in> set xs \<Longrightarrow> xs \<noteq> []"
  by auto

lemma ends_Bol_start: "ends (cat (Bol # rs)) (None, l) = ends (cat rs) (None, l)"
  by simp

lemma container_match:
  assumes "container_line l"
  shows "re_match RE_FENCED_DIV_LINE l"
proof -
  let ?G = "Opt (cat [Cls (\<lambda>c. c = 123), Rep 0 (\<lambda>c. c \<noteq> 10), Cls (\<lambda>c. c = 125)])"
  from assms obtain n sp where nb: "\<forall>c \<in> set l. \<not> is_linebreak c" and n: "3 \<le> n"
    and sp: "\<forall>c \<in> set sp. isspace c"
    and l: "l = replicate n 58 @ sp \<or> (\<exists>body. l = replicate n 58 @ sp @ 123 # body @ [125])"
    unfolding container_line_def by blast
  obtain grp where lg: "l = replicate n 58 @ sp @ grp" and g: "reach ?G grp []"
  proof (cases "l = replicate n 58 @ sp")
    case True
    then have "l = replicate n 58 @ sp @ []" by simp
    then show ?thesis using reach_Opt_skip that by blast
  next
    case False
    with l obtain body where b: "l = replicate n 58 @ sp @ 123 # body @ [125]" by blast
    have "\<forall>c \<in> set body. c \<noteq> 10"
    proof
      fix c assume "c \<in> set body"
      then have "c \<in> set l" using b by simp
      then have "\<not> is_linebreak c" using nb by blast
      then show "c \<noteq> 10" using nl_linebreak by blast
    qed
    then have r2: "reach (Rep 0 (\<lambda>c. c \<noteq> 10)) (body @ [125]) [125]" by (intro reach_Rep) simp_all
    have r3: "reach (cat [Cls (\<lambda>c. c = 125)]) [125] []"
      by (rule reach_cat_Cons[OF reach_Cls reach_cat_Nil])
    have r23: "reach (cat [Rep 0 (\<lambda>c. c \<noteq> 10), Cls (\<lambda>c. c = 125)]) (body @ [125]) []"
      by (rule reach_cat_Cons[OF r2 r3])
    have "reach (cat [Cls (\<lambda>c. c = 123), Rep 0 (\<lambda>c. c \<noteq> 10), Cls (\<lambda>c. c = 125)]) (123 # body @ [125]) []"
      by (rule reach_cat_Cons[OF reach_Cls r23])
    then have "reach ?G (123 # body @ [125]) []" by (rule reach_Opt_take)
    then show ?thesis using b that by blast
  qed
  obtain m where m: "n = Suc (Suc m)" "1 \<le> m" using n by (metis Suc_le_D Suc_le_mono numeral_3_eq_3 One_nat_def)
  have r7: "reach (cat [Eol]) [] []" by (rule reach_cat_Cons[OF reach_Eol reach_cat_Nil])
  have r6: "reach (cat [Rep 0 isspace, Eol]) [] []" by (rule reach_cat_Cons[OF reach_Rep0 r7])
  have r5: "reach (cat [?G, Rep 0 isspace, Eol]) grp []" by (rule reach_cat_Cons[OF g r6])
  have "reach (Rep 0 isspace) (sp @ grp) grp" using sp by (intro reach_Rep) simp_all
  then have r4: "reach (cat [Rep 0 isspace, ?G, Rep 0 isspace, Eol]) (sp @ grp) []"
    by (rule reach_cat_Cons[OF _ r5])
  have "reach (Rep 1 (\<lambda>c. c = 58)) (replicate m 58 @ (sp @ grp)) (sp @ grp)"
    using m(2) by (intro reach_Rep) simp_all
  then have r3: "reach (cat [Rep 1 (\<lambda>c. c = 58), Rep 0 isspace, ?G, Rep 0 isspace, Eol])
      (replicate m 58 @ (sp @ grp)) []"
    by (rule reach_cat_Cons[OF _ r4])
  have r2: "reach (cat [Cls (\<lambda>c. c = 58), Rep 1 (\<lambda>c. c = 58), Rep 0 isspace, ?G, Rep 0 isspace, Eol])
      (58 # replicate m 58 @ (sp @ grp)) []"
    by (rule reach_cat_Cons[OF reach_Cls r3])
  have r1: "reach (cat [Cls (\<lambda>c. c = 58), Cls (\<lambda>c. c = 58), Rep 1 (\<lambda>c. c = 58), Rep 0 isspace, ?G,
      Rep 0 isspace, Eol]) (58 # 58 # replicate m 58 @ (sp @ grp)) []"
    by (rule reach_cat_Cons[OF reach_Cls r2])
  have r0: "reach (cat [Rep 0 isspace, Cls (\<lambda>c. c = 58), Cls (\<lambda>c. c = 58), Rep 1 (\<lambda>c. c = 58),
      Rep 0 isspace, ?G, Rep 0 isspace, Eol]) (58 # 58 # replicate m 58 @ (sp @ grp)) []"
    by (rule reach_cat_Cons[OF reach_Rep0 r1])
  have "l = 58 # 58 # replicate m 58 @ (sp @ grp)" using lg m(1) by simp
  with r0 obtain p' where "(p', []) \<in> set (ends (cat [Rep 0 isspace, Cls (\<lambda>c. c = 58), Cls (\<lambda>c. c = 58),
      Rep 1 (\<lambda>c. c = 58), Rep 0 isspace, ?G, Rep 0 isspace, Eol]) (None, l))"
    unfolding reach_def by blast
  then have "ends (cat [Rep 0 isspace, Cls (\<lambda>c. c = 58), Cls (\<lambda>c. c = 58),
      Rep 1 (\<lambda>c. c = 58), Rep 0 isspace, ?G, Rep 0 isspace, Eol]) (None, l) \<noteq> []"
    by (rule in_set_nonempty)
  then have "ends RE_FENCED_DIV_LINE (None, l) \<noteq> []"
    unfolding RE_FENCED_DIV_LINE_def ends_Bol_start .
  then show ?thesis unfolding re_match_def .
qed


subsection \<open>What a match of RE_ATTR_TRAILING looks like\<close>








subsection \<open>splitlines of a text behind a finished line\<close>

lemma splitlines_unfold:
  assumes "A \<noteq> []"
  shows "splitlines A = takeWhile (\<lambda>c. \<not> is_linebreak c) A #
                  splitlines (skip_break (dropWhile (\<lambda>c. \<not> is_linebreak c) A))"
proof -
  obtain c s where A: "A = c # s" using assms by (cases A) auto
  show ?thesis unfolding A by (rule splitlines.simps(2))
qed

lemma suffix_last: "suffix u v \<Longrightarrow> u \<noteq> [] \<Longrightarrow> last u = last v"
  by (auto simp: suffix_def)

lemma suffix_skip_break: "suffix (skip_break r) r"
proof (cases r)
  case Nil
  then show ?thesis by simp
next
  case (Cons d r')
  have "suffix r' (d # r')" by (simp add: suffix_ConsI)
  moreover have "suffix (drop 1 r') (d # r')" by (meson suffix_ConsI suffix_drop)
  ultimately show ?thesis using Cons by auto
qed

lemma skip_break_append:
  assumes "D \<noteq> []" "last D = 10"
  shows "skip_break (D @ X) = skip_break D @ X"
proof -
  obtain d r where D: "D = d # r" using assms(1) by (cases D) auto
  show ?thesis
  proof (cases r)
    case Nil
    with D assms(2) show ?thesis by simp
  next
    case (Cons e r')
    with D show ?thesis by simp
  qed
qed

lemma splitlines_append:
  assumes "A = [] \<or> last A = 10"
  shows "splitlines (A @ X) = splitlines A @ splitlines X"
  using assms
proof (induction "length A" arbitrary: A rule: less_induct)
  case less
  let ?nb = "\<lambda>c. \<not> is_linebreak c"
  show ?case
  proof (cases "A = []")
    case True
    then show ?thesis by simp
  next
    case False
    with less.prems have la: "last A = 10" by simp
    have lin: "last A \<in> set A" using False by (rule last_in_set)
    have nlb: "\<not> ?nb (last A)" using la by simp
    have tw: "takeWhile ?nb (A @ X) = takeWhile ?nb A" using lin nlb by (rule takeWhile_append1)
    have dw: "dropWhile ?nb (A @ X) = dropWhile ?nb A @ X" using lin nlb by (rule dropWhile_append1)
    let ?D = "dropWhile ?nb A"
    have Dne: "?D \<noteq> []" using lin nlb by (auto simp: dropWhile_eq_Nil_conv)
    have "suffix ?D A" by (rule suffix_dropWhile)
    then have lD: "last ?D = 10" using Dne la suffix_last by metis
    have sk: "skip_break (?D @ X) = skip_break ?D @ X" using Dne lD by (rule skip_break_append)
    let ?S = "skip_break ?D"
    have "suffix ?S ?D" by (rule suffix_skip_break)
    then have "?S = [] \<or> last ?S = 10" using lD suffix_last by metis
    moreover have "length ?S < length A" using False by (rule length_skip_break_dropWhile)
    ultimately have IH: "splitlines (?S @ X) = splitlines ?S @ splitlines X" using less.hyps by blast
    have "splitlines (A @ X) = takeWhile ?nb (A @ X) # splitlines (skip_break (dropWhile ?nb (A @ X)))"
      using False by (intro splitlines_unfold) simp
    also have "\<dots> = takeWhile ?nb A # splitlines (?S @ X)" by (simp only: tw dw sk)
    also have "\<dots> = (takeWhile ?nb A # splitlines ?S) @ splitlines X" by (simp only: IH append_Cons)
    also have "takeWhile ?nb A # splitlines ?S = splitlines A"
      using False by (rule splitlines_unfold[symmetric])
    finally show ?thesis .
  qed
qed

lemma clean_markdown_cong:
  "clean_lines W (splitlines x) = clean_lines W (splitlines x') \<Longrightarrow>
   clean_markdown W x = clean_markdown W x'"
  by (simp add: clean_markdown_def)

lemma container_line_props:
  assumes "container_line l"
  shows "l \<noteq> []" "\<forall>c \<in> set l. \<not> is_linebreak c"
proof -
  from assms obtain n sp where "3 \<le> n"
    and "l = replicate n 58 @ sp \<or> (\<exists>body. l = replicate n 58 @ sp @ 123 # body @ [125])"
    unfolding container_line_def by blast
  then show "l \<noteq> []" by auto
  show "\<forall>c \<in> set l. \<not> is_linebreak c" using assms unfolding container_line_def by blast
qed

subsection \<open>Texts of markup lines only\<close>


subsection \<open>Two brace groups at the end of a line\<close>






subsection \<open>Blank lines of the output\<close>

lemma splitlines_blank_pair:
  "only_nl t \<Longrightarrow> sublist [[], []] (splitlines t) \<Longrightarrow> prefix [10, 10] t \<or> sublist [10, 10, 10] t"
proof (induction "length t" arbitrary: t rule: less_induct)
  case less
  show ?case
  proof (cases "t = []")
    case True
    then show ?thesis using less.prems(2) by simp
  next
    case False
    from only_nl_decomp[OF less.prems(1)] show ?thesis
    proof
      assume nb: "\<forall>c \<in> set t. \<not> is_linebreak c"
      then have "splitlines t = [t]" using False by (simp add: splitlines_line_end)
      then have "sublist [[], []] [t]" using less.prems(2) by simp
      then have "length [[], []::str] \<le> length [t]" by (rule sublist_length_le)
      then show ?thesis by simp
    next
      assume "\<exists>l r. t = l @ 10 # r \<and> (\<forall>c \<in> set l. \<not> is_linebreak c) \<and> only_nl r"
      then obtain l r where t: "t = l @ 10 # r" and l: "\<forall>c \<in> set l. \<not> is_linebreak c"
        and r: "only_nl r" by blast
      have sl: "splitlines t = l # splitlines r" unfolding t using l by (rule splitlines_line_nl)
      from less.prems(2) have "prefix [[], []] (l # splitlines r) \<or> sublist [[], []] (splitlines r)"
        unfolding sl by (simp only: sublist_Cons_right)
      then show ?thesis
      proof
        assume p: "prefix [[], []] (l # splitlines r)"
        then have l0: "l = []" and p2: "prefix [[]] (splitlines r)" by simp_all
        from p2 obtain rest where sr: "splitlines r = [] # rest" by (cases "splitlines r") auto
        then have rne: "r \<noteq> []" by auto
        from only_nl_decomp[OF r] have "\<exists>r2. r = 10 # r2"
        proof
          assume "\<forall>c \<in> set r. \<not> is_linebreak c"
          then have "splitlines r = [r]" using rne by (simp add: splitlines_line_end)
          with sr rne show ?thesis by simp
        next
          assume "\<exists>l2 r2. r = l2 @ 10 # r2 \<and> (\<forall>c \<in> set l2. \<not> is_linebreak c) \<and> only_nl r2"
          then obtain l2 r2 where r2: "r = l2 @ 10 # r2" and l2: "\<forall>c \<in> set l2. \<not> is_linebreak c"
            by blast
          have "splitlines r = l2 # splitlines r2" unfolding r2 using l2 by (rule splitlines_line_nl)
          with sr have "l2 = []" by simp
          with r2 show ?thesis by simp
        qed
        then obtain r2 where "r = 10 # r2" by blast
        then have "t = [10, 10] @ r2" using t l0 by simp
        then have "prefix [10, 10] t" by (simp only: prefixI)
        then show ?thesis ..
      next
        assume s: "sublist [[], []] (splitlines r)"
        have "length r < length t" using t by simp
        then have "prefix [10, 10] r \<or> sublist [10, 10, 10] r" using less.hyps r s by blast
        then show ?thesis
        proof
          assume "prefix [10, 10] r"
          then obtain r' where "r = [10, 10] @ r'" by (auto simp: prefix_def)
          then have "t = l @ [10, 10, 10] @ r'" using t by simp
          then have "sublist [10, 10, 10] t" by (simp only: sublist_appendI)
          then show ?thesis ..
        next
          assume "sublist [10, 10, 10] r"
          moreover have "t = (l @ [10]) @ r" using t by simp
          then have "suffix r t" by (rule suffixI)
          then have "sublist r t" by (rule suffix_imp_sublist)
          ultimately have "sublist [10, 10, 10] t" by (meson sublist_order.order.trans)
          then show ?thesis ..
        qed
      qed
    qed
  qed
qed

section \<open>clean_markdown: results\<close>

lemma takeWhile_dropWhile_Nil: "takeWhile P (dropWhile P xs) = []"
  by (induction xs) auto

lemmas eval_defs =
  clean_markdown_def lit_def re_sub_def re_match_def RE_FENCED_DIV_LINE_def
  RE_ATTR_TRAILING_def RE_HTML_TAG_def RE_MULTI_BLANK_def isspace_def is_linebreak_def
  is_word_def ascii_letter_def ascii_letter_digit_def strip_def lstrip_def rstrip_def

text \<open>
  C4. The output of \<open>clean_markdown\<close> ends with exactly one newline and has nothing
  blank before it: the longest run of whitespace at the end of the output is that one
  newline (for every input, the empty one included).
\<close>

theorem clean_markdown_trailing_newline:
  "takeWhile isspace (rev (clean_markdown alnum x)) = [10]"
  by (simp add: clean_markdown_def Let_def strip_def rstrip_def isspace_def[of 10]
      takeWhile_dropWhile_Nil)

theorem clean_markdown_trailing_newline_witness:
  "takeWhile isspace (rev (clean_markdown (\<lambda>c. False) (lit ''a  ''))) = [10]"
  by (rule clean_markdown_trailing_newline)

text \<open>
  C8. For every input, the output of \<open>clean_markdown\<close> contains no three consecutive
  newlines, and no line of it has whitespace at its end (stripping a line on the right
  changes nothing). Whitespace-only lines of the input are covered: the loop strips
  each line on the right before the blank runs are collapsed.
\<close>

theorem clean_markdown_no_blank_run_no_trailing_space:
  "\<not> sublist [10, 10, 10] (clean_markdown alnum x) \<and>
   map rstrip (splitlines (clean_markdown alnum x)) = splitlines (clean_markdown alnum x)"
proof -
  let ?s = "strip (chomp (squeeze (joined alnum x)))"
  have n: "normal ?s" by (rule body_normal)
  have y: "clean_markdown alnum x = ?s @ [10]" by (rule clean_markdown_alt)
  have "\<And>l. l \<in> set (splitlines (?s @ [10])) \<Longrightarrow> rstrip l = l"
    using splitlines_good[OF normal_out(1,2)[OF n]] good_line_rstrip by blast
  then have "map rstrip (splitlines (?s @ [10])) = splitlines (?s @ [10])" by (simp add: map_idI)
  then show ?thesis using normal_out(3)[OF n] y by simp
qed

theorem clean_markdown_no_blank_run_no_trailing_space_witness:
  "\<not> sublist [10, 10, 10]
      (clean_markdown (\<lambda>c. False) (lit ''a  '' @ [10] @ lit ''   '' @ [10, 9, 10, 10] @ lit ''b '')) \<and>
   map rstrip (splitlines
      (clean_markdown (\<lambda>c. False) (lit ''a  '' @ [10] @ lit ''   '' @ [10, 9, 10, 10] @ lit ''b ''))) =
   splitlines
      (clean_markdown (\<lambda>c. False) (lit ''a  '' @ [10] @ lit ''   '' @ [10, 9, 10, 10] @ lit ''b ''))"
  by (rule clean_markdown_no_blank_run_no_trailing_space)

text \<open>
  C1, as the code has it. Normalizing twice gives the same text as normalizing once
  whenever no line of the normalized text is one on which the three line rules still
  act: none is a fenced-container line, none ends in a brace group that
  \<open>RE_ATTR_TRAILING\<close> would remove, none holds a tag that \<open>RE_HTML_TAG\<close> would remove.
  Without that condition the claim fails: one pass removes only the last of two
  brace groups at the end of a line, so a second pass changes \<open>a {x}\<close> again.
\<close>

theorem clean_markdown_idempotent_on_settled_output:
  assumes "\<forall>l \<in> set (splitlines (clean_markdown alnum x)).
             \<not> re_match RE_FENCED_DIV_LINE l \<and> re_sub RE_ATTR_TRAILING [] l = l \<and>
             re_sub (RE_HTML_TAG alnum) [] l = l"
  shows "clean_markdown alnum (clean_markdown alnum x) = clean_markdown alnum x"
  using assms normal_fixed[OF body_normal[of alnum x]] by (simp add: clean_markdown_alt)

theorem clean_markdown_idempotent_on_settled_output_witness:
  "splitlines (clean_markdown (\<lambda>c. False) (lit ''hello  '' @ [10, 10, 10] @ lit ''world''))
     = [lit ''hello'', [], lit ''world''] \<and>
   clean_markdown (\<lambda>c. False)
     (clean_markdown (\<lambda>c. False) (lit ''hello  '' @ [10, 10, 10] @ lit ''world''))
     = clean_markdown (\<lambda>c. False) (lit ''hello  '' @ [10, 10, 10] @ lit ''world'')"
proof -
  let ?x = "lit ''hello  '' @ [10, 10, 10] @ lit ''world''"
  have out: "clean_markdown (\<lambda>c. False) ?x = lit ''hello'' @ [10, 10] @ lit ''world'' @ [10]"
    by (simp add: eval_defs)
  have ls: "splitlines (clean_markdown (\<lambda>c. False) ?x) = [lit ''hello'', [], lit ''world'']"
    unfolding out by (simp add: lit_def is_linebreak_def)
  have h: "\<forall>l \<in> set (splitlines (clean_markdown (\<lambda>c. False) ?x)).
             \<not> re_match RE_FENCED_DIV_LINE l \<and> re_sub RE_ATTR_TRAILING [] l = l \<and>
             re_sub (RE_HTML_TAG (\<lambda>c. False)) [] l = l"
    unfolding ls by (simp add: eval_defs)
  show ?thesis
    by (rule conjI[OF ls clean_markdown_idempotent_on_settled_output[OF h]])
qed

theorem clean_markdown_not_idempotent_counterexample:
  "\<forall>alnum. clean_markdown alnum (lit ''a {x}{y}'') = lit ''a {x}'' @ [10] \<and>
     clean_markdown alnum (clean_markdown alnum (lit ''a {x}{y}'')) = lit ''a'' @ [10] \<and>
     clean_markdown alnum (clean_markdown alnum (lit ''a {x}{y}''))
       \<noteq> clean_markdown alnum (lit ''a {x}{y}'')"
proof
  fix alnum
  have a: "clean_markdown alnum (lit ''a {x}{y}'') = lit ''a {x}'' @ [10]"
    by (simp add: eval_defs)
  have b: "clean_markdown alnum (lit ''a {x}'' @ [10]) = lit ''a'' @ [10]"
    by (simp add: eval_defs)
  have c: "lit ''a'' @ [10] \<noteq> lit ''a {x}'' @ [10]" by (simp add: lit_def)
  show "clean_markdown alnum (lit ''a {x}{y}'') = lit ''a {x}'' @ [10] \<and>
     clean_markdown alnum (clean_markdown alnum (lit ''a {x}{y}'')) = lit ''a'' @ [10] \<and>
     clean_markdown alnum (clean_markdown alnum (lit ''a {x}{y}''))
       \<noteq> clean_markdown alnum (lit ''a {x}{y}'')"
    using a b c by simp
qed

lemma container_lineI:
  assumes "\<forall>c \<in> set l. \<not> is_linebreak c" "3 \<le> n" "\<forall>c \<in> set sp. isspace c"
    and "l = replicate n 58 @ sp \<or> l = replicate n 58 @ sp @ 123 # body @ [125]"
  shows "container_line l"
  unfolding container_line_def using assms by blast


lemma container_line_note: "container_line (lit ''::: {.note}'')"
  by (rule container_lineI[of _ 3 "[32]" "lit ''.note''"])
     (simp_all add: lit_def is_linebreak_def isspace_def numeral_3_eq_3)



text \<open>
  C5. \<open>clean_markdown\<close> drops every fenced-container line (three or more colons,
  optionally followed by a brace-delimited attribute group): a text with such a line,
  standing at the start of the text or behind a newline, is cleaned to the same
  output as the text without that line, so the lines around it come out as they
  would without it. The line may be followed by a newline or end the text. In the
  loop over the lines of any text, such a line contributes nothing, and the lines
  before and behind it are treated as without it.
\<close>

theorem fenced_container_line_dropped:
  assumes "container_line fl" "A = [] \<or> last A = 10"
  shows "clean_markdown W (A @ fl @ 10 # B) = clean_markdown W (A @ B) \<and>
         clean_markdown W (A @ fl) = clean_markdown W A \<and>
         clean_lines W (xs @ fl # ys) = clean_lines W xs @ clean_lines W ys"
proof -
  have m: "re_match RE_FENCED_DIV_LINE fl" using assms(1) by (rule container_match)
  have lines: "clean_lines W (xs @ fl # ys) = clean_lines W xs @ clean_lines W ys"
    using m by (simp add: clean_lines_append)
  note p = container_line_props[OF assms(1)]
  have 1: "splitlines (fl @ 10 # B) = fl # splitlines B" using p(2) by (rule splitlines_line_nl)
  have 2: "splitlines fl = [fl]" using p(2) p(1) by (rule splitlines_line_end)
  have "clean_lines W (splitlines (A @ fl @ 10 # B)) = clean_lines W (splitlines (A @ B))"
    using m by (simp add: splitlines_append[OF assms(2)] 1 clean_lines_append)
  moreover have "clean_lines W (splitlines (A @ fl)) = clean_lines W (splitlines A)"
    using m by (simp add: splitlines_append[OF assms(2)] 2 clean_lines_append)
  ultimately show ?thesis using clean_markdown_cong lines by blast
qed

theorem fenced_container_line_dropped_witness:
  "clean_markdown (\<lambda>c. False) ((lit ''a'' @ [10]) @ lit ''::: {.note}'' @ 10 # lit ''b'') =
     clean_markdown (\<lambda>c. False) ((lit ''a'' @ [10]) @ lit ''b'') \<and>
   clean_markdown (\<lambda>c. False) ((lit ''a'' @ [10]) @ lit ''::: {.note}'') =
     clean_markdown (\<lambda>c. False) (lit ''a'' @ [10]) \<and>
   clean_lines (\<lambda>c. False) ([lit ''a''] @ lit ''::: {.note}'' # [lit ''b'']) =
     clean_lines (\<lambda>c. False) [lit ''a''] @ clean_lines (\<lambda>c. False) [lit ''b''] \<and>
   clean_markdown (\<lambda>c. False) ((lit ''a'' @ [10]) @ lit ''b'') = lit ''a'' @ [10] @ lit ''b'' @ [10]"
proof -
  have h2: "lit ''a'' @ [10] = [] \<or> last (lit ''a'' @ [10]) = 10" by simp
  have e: "clean_markdown (\<lambda>c. False) ((lit ''a'' @ [10]) @ lit ''b'') = lit ''a'' @ [10] @ lit ''b'' @ [10]"
    by (simp add: eval_defs)
  show ?thesis
    using fenced_container_line_dropped[OF container_line_note h2,
        of "\<lambda>c. False" "lit ''b''" "[lit ''a'']" "[lit ''b'']"] e
    by blast
qed






text \<open>
  C6. \<open>RE_MULTI_BLANK.sub\<close> turns every run of three or more newlines into exactly two:
  a run of \<open>n \<ge> 3\<close> newlines between a text that does not end in a newline and a text
  that does not start with one is replaced by two newlines, and the texts on both
  sides are treated on their own. So the output of \<open>clean_markdown\<close> has at most one
  blank line between two blocks: no two empty lines follow each other in it.
\<close>

theorem blank_runs_collapsed:
  assumes "3 \<le> n" "a = [] \<or> last a \<noteq> 10" "b = [] \<or> hd b \<noteq> 10"
  shows "re_sub RE_MULTI_BLANK [10, 10] (a @ replicate n 10 @ b) =
           re_sub RE_MULTI_BLANK [10, 10] a @ [10, 10] @ re_sub RE_MULTI_BLANK [10, 10] b \<and>
         \<not> sublist [[], []] (splitlines (clean_markdown W x))"
proof -
  have "squeeze (a @ replicate n 10 @ b) = squeeze a @ squeeze (replicate n 10 @ b)"
    using assms(2) by (rule squeeze_append)
  also have "squeeze (replicate n 10 @ b) = [10, 10] @ squeeze b" using assms(1,3) by (rule squeeze_run3)
  finally have A: "re_sub RE_MULTI_BLANK [10, 10] (a @ replicate n 10 @ b) =
      re_sub RE_MULTI_BLANK [10, 10] a @ [10, 10] @ re_sub RE_MULTI_BLANK [10, 10] b"
    by (simp add: re_sub_def multi_blank_squeeze)
  let ?s = "strip (chomp (squeeze (joined W x)))"
  have n: "normal ?s" by (rule body_normal)
  have y: "clean_markdown W x = ?s @ [10]" by (rule clean_markdown_alt)
  have np: "\<not> prefix [10, 10] (?s @ [10])"
  proof (cases "?s = []")
    case True
    then show ?thesis by simp
  next
    case False
    then have "hd ?s \<noteq> 10" using normal_hd[OF n] by simp
    then show ?thesis using False by (cases ?s) auto
  qed
  have "\<not> sublist [[], []] (splitlines (?s @ [10]))"
    using splitlines_blank_pair[OF normal_out(1)[OF n]] np normal_out(3)[OF n] by blast
  with A y show ?thesis by simp
qed

theorem blank_runs_collapsed_witness:
  "re_sub RE_MULTI_BLANK [10, 10] (lit ''p1'' @ replicate 4 10 @ lit ''p2'') =
     re_sub RE_MULTI_BLANK [10, 10] (lit ''p1'') @ [10, 10] @ re_sub RE_MULTI_BLANK [10, 10] (lit ''p2'') \<and>
   \<not> sublist [[], []]
      (splitlines (clean_markdown (\<lambda>c. False) (lit ''p1'' @ [10, 10, 10, 10] @ lit ''p2''))) \<and>
   clean_markdown (\<lambda>c. False) (lit ''p1'' @ [10, 10, 10, 10] @ lit ''p2'') =
     lit ''p1'' @ [10, 10] @ lit ''p2'' @ [10]"
proof -
  have h1: "(3::nat) \<le> 4" by simp
  have h2: "lit ''p1'' = [] \<or> last (lit ''p1'') \<noteq> 10" by (simp add: lit_def)
  have h3: "lit ''p2'' = [] \<or> hd (lit ''p2'') \<noteq> 10" by (simp add: lit_def)
  have e: "clean_markdown (\<lambda>c. False) (lit ''p1'' @ [10, 10, 10, 10] @ lit ''p2'') =
     lit ''p1'' @ [10, 10] @ lit ''p2'' @ [10]"
    by (simp add: eval_defs)
  show ?thesis
    using blank_runs_collapsed[OF h1 h2 h3, of "\<lambda>c. False" "lit ''p1'' @ [10, 10, 10, 10] @ lit ''p2''"] e
    by blast
qed

end
